theory Spec2Isabelle
  imports Main "HOL-Library.Sublist"
begin

section \<open>GTG core: tasks, dates and the task tree\<close>

text \<open>
  A shallow embedding of \<^verbatim>\<open>GTG/core/task.py\<close>. A method \<^verbatim>\<open>Task.m(self, args)\<close> becomes a
  function on an explicit world (the id-to-task table of the requester, the tag registry, the
  log of notifications) that takes the id of \<^verbatim>\<open>self\<close>. Exceptions are values of
  type \<open>error\<close>. A recursive method takes a bound on the depth of nested calls and raises
  \<open>RecursionError\<close> when it is used up, as the interpreter does.
\<close>

subsection \<open>Errors\<close>

text \<open>
  \<open>MissingTask\<close> is the exception of a call on a task the requester does not know,
  \<open>NoReturn\<close> stands for a call that does not return (a loop that runs forever), and
  \<open>NoFreshId\<close> for a datastore that has no unused identifier left.
\<close>

datatype error = MissingTask | RecursionError | ValueError | NoReturn | NoFreshId

definition bindE :: "error + 'a \<Rightarrow> ('a \<Rightarrow> error + 'b) \<Rightarrow> error + 'b" where
  "bindE r f = (case r of Inl e \<Rightarrow> Inl e | Inr v \<Rightarrow> f v)"

primrec foldE :: "('a \<Rightarrow> 's \<Rightarrow> error + 's) \<Rightarrow> 'a list \<Rightarrow> 's \<Rightarrow> error + 's" where
  "foldE f [] s = Inr s"
| "foldE f (x # xs) s = bindE (f x s) (foldE f xs)"

subsection \<open>Dates\<close>

text \<open>
  Modelled from the spec: the class \<^verbatim>\<open>GTG.core.dates.Date\<close> is not part of the sources at hand.
  The spec gives a tagged value \<^verbatim>\<open>NoDate | Fuzzy(tag) | Concrete(calendar date)\<close>, with
  \<^verbatim>\<open>NoDate\<close> and \<^verbatim>\<open>Fuzzy\<close> comparing as infinitely late, and \<^verbatim>\<open>is_fuzzy()\<close> true of the
  fuzzy and of the undefined date. A concrete date is the number of its day.
\<close>

datatype fuzzy = Now | Soon | Someday

datatype date = NoDate | FuzzyDate fuzzy | Concrete int

fun is_fuzzy :: "date \<Rightarrow> bool" where
  "is_fuzzy (Concrete _) = False"
| "is_fuzzy _ = True"

fun date_lt :: "date \<Rightarrow> date \<Rightarrow> bool" where
  "date_lt (Concrete x) (Concrete y) = (x < y)"
| "date_lt (Concrete x) _ = True"
| "date_lt _ _ = False"

definition date_le :: "date \<Rightarrow> date \<Rightarrow> bool" where
  "date_le a b = (\<not> date_lt b a)"

subsection \<open>Strings\<close>

definition nl :: char where
  "nl = CHR 0x0A"

text \<open>\<^verbatim>\<open>str.replace(old, new)\<close> for a non-empty \<^verbatim>\<open>old\<close>: left to right, occurrences do not overlap.\<close>

fun replace_ne :: "string \<Rightarrow> string \<Rightarrow> string \<Rightarrow> string" where
  "replace_ne old new [] = []"
| "replace_ne old new (c # cs) =
     (if old \<noteq> [] \<and> prefix old (c # cs)
      then new @ replace_ne old new (drop (length old - 1) cs)
      else c # replace_ne old new cs)"

text \<open>With an empty \<^verbatim>\<open>old\<close>, Python puts \<^verbatim>\<open>new\<close> before every character and at the end.\<close>

definition replace :: "string \<Rightarrow> string \<Rightarrow> string \<Rightarrow> string" where
  "replace old new text =
     (if old = [] then new @ concat (map (\<lambda>c. c # new) text) else replace_ne old new text)"

definition startswith :: "string \<Rightarrow> string \<Rightarrow> bool" where
  "startswith s p = prefix p s"

text \<open>\<^verbatim>\<open>html.escape(s)\<close>, with its default \<^verbatim>\<open>quote=True\<close>.\<close>

definition html_escape :: "string \<Rightarrow> string" where
  "html_escape s =
     replace [CHR 0x27] ''&#x27;''
       (replace [CHR 0x22] ''&quot;''
         (replace ''>'' ''&gt;''
           (replace ''<'' ''&lt;''
             (replace ''&'' ''&amp;'' s))))"

subsection \<open>Tasks and the world around them\<close>

type_synonym tid = string

type_synonym ref = nat

text \<open>
  The attributes of a \<^verbatim>\<open>Task\<close>. \<open>parents\<close> and \<open>children\<close> are the lists the \<^verbatim>\<open>TreeNode\<close> base
  class keeps. \<open>tags\<close> is a reference to a list in the world: \<^verbatim>\<open>duplicate\<close> makes two tasks
  share one list object. \<open>recurring_updated_date\<close> holds \<open>None\<close> for \<^verbatim>\<open>Date.no_date()\<close> and
  the time of the clock otherwise.
\<close>

record task =
  title :: string
  content :: string
  status :: string
  added_date :: date
  closed_date :: date
  due_date :: date
  start_date :: date
  can_be_deleted :: bool
  tags :: ref
  loaded :: bool
  sync_disabled :: bool
  last_modified :: int
  recurring :: bool
  recurring_term :: "string option"
  recurring_updated_date :: "int option"
  parents :: "tid list"
  children :: "tid list"

datatype event =
    Modified tid
  | StatusChanged tid string string
  | TagCreated string
  | TagModified string
  | TagUpdateTask string tid

text \<open>
  The world: the requester's table of tasks, the heap of tag lists, the names in the tag
  registry, the notifications sent so far (\<^verbatim>\<open>modified()\<close> of a task or a tag, the
  \<^verbatim>\<open>status-changed\<close> signal, \<^verbatim>\<open>update_task\<close> of a tag), and the identifiers the datastore
  hands out to new tasks.
\<close>

record world =
  tasks :: "tid \<Rightarrow> task option"
  tag_lists :: "ref \<Rightarrow> string list"
  next_ref :: ref
  tag_registry :: "string list"
  events :: "event list"
  fresh_ids :: "tid list"

text \<open>
  What a call reads from outside: the clock (\<^verbatim>\<open>datetime.now()\<close>), the day
  (\<^verbatim>\<open>date.today()\<close>) and \<^verbatim>\<open>Date.parse_from_date(term, newtask)\<close>, which is not part of the
  sources at hand: \<open>None\<close> stands for its \<^verbatim>\<open>ValueError\<close>.
\<close>

record env =
  now :: int
  today :: int
  parse_from_date :: "date \<Rightarrow> string option \<Rightarrow> bool \<Rightarrow> date option"

definition STA_ACTIVE :: string where
  "STA_ACTIVE = ''Active''"

definition STA_DISMISSED :: string where
  "STA_DISMISSED = ''Dismiss''"

definition STA_DONE :: string where
  "STA_DONE = ''Done''"

definition upd :: "tid \<Rightarrow> (task \<Rightarrow> task) \<Rightarrow> world \<Rightarrow> world" where
  "upd t f S = (case tasks S t of None \<Rightarrow> S | Some T \<Rightarrow> S\<lparr>tasks := (tasks S)(t \<mapsto> f T)\<rparr>)"

definition notify :: "event \<Rightarrow> world \<Rightarrow> world" where
  "notify e S = S\<lparr>events := events S @ [e]\<rparr>"

definition tags_of :: "world \<Rightarrow> task \<Rightarrow> string list" where
  "tags_of S T = tag_lists S (tags T)"

subsection \<open>\<^verbatim>\<open>sync\<close>\<close>

text \<open>
  \<^verbatim>\<open>sync\<close> updates the time stamp and calls \<^verbatim>\<open>modified()\<close> of a loaded task, unless syncing
  is disabled. It returns whether it notified.
\<close>

definition sync :: "env \<Rightarrow> tid \<Rightarrow> world \<Rightarrow> bool \<times> world" where
  "sync E t S =
     (case tasks S t of
        None \<Rightarrow> (False, S)
      | Some T \<Rightarrow>
          if sync_disabled T then (loaded T, S)
          else let S1 = upd t (\<lambda>T. T\<lparr>last_modified := now E\<rparr>) S
               in if loaded T then (True, notify (Modified t) S1) else (False, S1))"

subsection \<open>Tags\<close>

text \<open>\<^verbatim>\<open>req.get_tag(name)\<close> or else \<^verbatim>\<open>req.new_tag(name)\<close>, followed by \<^verbatim>\<open>tag.modified()\<close>.\<close>

definition tag_touch :: "string \<Rightarrow> world \<Rightarrow> world" where
  "tag_touch name S =
     notify (TagModified name)
       (if name \<in> set (tag_registry S) then S
        else notify (TagCreated name) (S\<lparr>tag_registry := tag_registry S @ [name]\<rparr>))"

text \<open>
  \<^verbatim>\<open>tag_added\<close> returns \<^verbatim>\<open>True\<close> when it added the tag and \<^verbatim>\<open>None\<close> (here \<open>False\<close>) when
  the task had it. \<^verbatim>\<open>get_subtasks()\<close> looks every child up in the tree.
\<close>

primrec tag_added :: "nat \<Rightarrow> env \<Rightarrow> tid \<Rightarrow> string \<Rightarrow> world \<Rightarrow> error + (bool \<times> world)" where
  "tag_added 0 = (\<lambda>E t name S. Inl RecursionError)"
| "tag_added (Suc n) = (\<lambda>E t name S.
     case tasks S t of
       None \<Rightarrow> Inl MissingTask
     | Some T \<Rightarrow>
         if name \<in> set (tags_of S T) then Inr (False, S)
         else
           let S1 = S\<lparr>tag_lists := (tag_lists S)(tags T := tags_of S T @ [name])\<rparr>
           in if loaded T
              then bindE
                     (foldE (\<lambda>c S'. case tasks S' c of
                                None \<Rightarrow> Inl MissingTask
                              | Some C \<Rightarrow>
                                  if can_be_deleted C
                                  then bindE (tag_added n E c name S') (\<lambda>r. Inr (snd r))
                                  else Inr S')
                        (children T) S1)
                     (\<lambda>S2. Inr (True, tag_touch name S2))
              else Inr (True, S1))"

definition add_tag :: "nat \<Rightarrow> env \<Rightarrow> tid \<Rightarrow> string \<Rightarrow> world \<Rightarrow> error + world" where
  "add_tag n E t tagname S =
     bindE (tag_added n E t tagname S) (\<lambda>r.
       if fst r
       then (case tasks (snd r) t of
               None \<Rightarrow> Inl MissingTask
             | Some T \<Rightarrow>
                 let c = content T;
                     tagname1 = html_escape tagname;
                     tagname2 = (if \<not> startswith tagname1 ''@'' then ''@'' @ tagname1 else tagname1);
                     sep = (if c = [] then ''''
                            else if startswith c ''@'' then '', ''
                            else [nl, nl])
                 in Inr (snd (sync E t (upd t (\<lambda>T. T\<lparr>content := tagname2 @ sep @ c\<rparr>) (snd r)))))
       else Inr (snd r))"

definition strip_tag :: "string \<Rightarrow> string \<Rightarrow> string \<Rightarrow> string" where
  "strip_tag text tagname newtag =
     (let inline_tag = (if startswith tagname ''@'' then drop 1 tagname else tagname)
      in replace tagname inline_tag
          (replace (tagname @ '','') inline_tag
            (replace (tagname @ '', '') newtag
              (replace (tagname @ [nl, nl]) newtag
                (replace (''@'' @ tagname) newtag
                  (replace (''@'' @ tagname @ '', '') newtag
                    (replace (''@'' @ tagname @ [nl]) newtag
                      (replace (''@'' @ tagname @ [nl, nl]) newtag text))))))))"

text \<open>\<^verbatim>\<open>tag.update_task(tid)\<close> and \<^verbatim>\<open>tag.modified()\<close> of a tag the registry has.\<close>

definition tag_removed :: "string \<Rightarrow> tid \<Rightarrow> world \<Rightarrow> world" where
  "tag_removed name t S =
     (if name \<in> set (tag_registry S)
      then notify (TagModified name) (notify (TagUpdateTask name t) S)
      else S)"

primrec remove_tag :: "nat \<Rightarrow> tid \<Rightarrow> string \<Rightarrow> world \<Rightarrow> error + world" where
  "remove_tag 0 = (\<lambda>t tagname S. Inl RecursionError)"
| "remove_tag (Suc n) = (\<lambda>t tagname S.
     case tasks S t of
       None \<Rightarrow> Inl MissingTask
     | Some T \<Rightarrow>
         let modified = (tagname \<in> set (tags_of S T))
         in bindE
              (if modified
               then foldE (\<lambda>c S'. case tasks S' c of
                              None \<Rightarrow> Inl MissingTask
                            | Some C \<Rightarrow> if can_be_deleted C then remove_tag n c tagname S' else Inr S')
                      (children T)
                      (S\<lparr>tag_lists := (tag_lists S)(tags T := remove1 tagname (tags_of S T))\<rparr>)
               else Inr S)
              (\<lambda>S1. let S2 = upd t (\<lambda>T. T\<lparr>content := strip_tag (content T) tagname ''''\<rparr>) S1
                    in Inr (if modified then tag_removed tagname t S2 else S2)))"

subsection \<open>Example worlds\<close>

text \<open>
  The attributes \<^verbatim>\<open>Task.__init__\<close> gives a task: \<open>r\<close> is its new, empty list of tags, and
  a task made with \<^verbatim>\<open>newtask\<close> is loaded, deletable and added today.
\<close>

definition init_task :: "env \<Rightarrow> ref \<Rightarrow> bool \<Rightarrow> task" where
  "init_task E r newtask =
     \<lparr>title = ''My new task'', content = '''', status = STA_ACTIVE,
      added_date = (if newtask then Concrete (today E) else NoDate),
      closed_date = NoDate, due_date = NoDate, start_date = NoDate,
      can_be_deleted = newtask, tags = r, loaded = newtask, sync_disabled = False,
      last_modified = now E, recurring = False, recurring_term = None,
      recurring_updated_date = None, parents = [], children = []\<rparr>"

definition world_of :: "(tid \<Rightarrow> task option) \<Rightarrow> world" where
  "world_of m =
     \<lparr>tasks = m, tag_lists = (\<lambda>r. []), next_ref = 100, tag_registry = [],
      events = [], fresh_ids = []\<rparr>"

text \<open>A clock, a day, and a parser that knows the term \<^verbatim>\<open>day\<close> only.\<close>

definition env0 :: env where
  "env0 =
     \<lparr>now = 1000, today = 10,
      parse_from_date = (\<lambda>d term newtask.
        if term = Some ''day''
        then (case d of Concrete x \<Rightarrow> Some (Concrete (x + 1)) | _ \<Rightarrow> Some (Concrete 11))
        else None)\<rparr>"

definition content_of :: "error + world \<Rightarrow> tid \<Rightarrow> string option" where
  "content_of r t = (case r of Inl e \<Rightarrow> None | Inr S \<Rightarrow> map_option content (tasks S t))"

definition tags_after :: "error + world \<Rightarrow> tid \<Rightarrow> string list option" where
  "tags_after r t = (case r of Inl e \<Rightarrow> None | Inr S \<Rightarrow> map_option (tags_of S) (tasks S t))"

definition text_task :: "string \<Rightarrow> task" where
  "text_task c = (init_task env0 0 True)\<lparr>content := c\<rparr>"

definition text_world :: "string \<Rightarrow> world" where
  "text_world c = world_of [''t'' \<mapsto> text_task c]"

subsection \<open>\<^verbatim>\<open>get_excerpt\<close>\<close>

text \<open>
  A character of the content is a \<open>char\<close>: the model covers texts whose code points are
  below 256. \<^verbatim>\<open>xml_escape\<close> is \<^verbatim>\<open>xml.sax.saxutils.escape\<close> without further entities.
\<close>

definition xml_escape :: "string \<Rightarrow> string" where
  "xml_escape s = replace ''<'' ''&lt;'' (replace ''>'' ''&gt;'' (replace ''&'' ''&amp;'' s))"

definition isspace :: "char \<Rightarrow> bool" where
  "isspace c = (of_char c \<in> {9, 10, 11, 12, 13, 28, 29, 30, 31, 32, 133, 160 :: nat})"

definition strip :: "string \<Rightarrow> string" where
  "strip s = rev (dropWhile isspace (rev (dropWhile isspace s)))"

text \<open>The characters at which \<^verbatim>\<open>str.splitlines\<close> breaks a line.\<close>

definition is_linebreak :: "char \<Rightarrow> bool" where
  "is_linebreak c = (of_char c \<in> {10, 11, 12, 13, 28, 29, 30, 133 :: nat})"

primrec split_when :: "(char \<Rightarrow> bool) \<Rightarrow> string \<Rightarrow> string list" where
  "split_when p [] = [[]]"
| "split_when p (c # cs) =
     (if p c then [] # split_when p cs
      else (case split_when p cs of [] \<Rightarrow> [[c]] | l # ls \<Rightarrow> (c # l) # ls))"

primrec join :: "string \<Rightarrow> string list \<Rightarrow> string" where
  "join sep [] = []"
| "join sep (l # ls) = (if ls = [] then l else l @ sep @ join sep ls)"

primrec find_first :: "string \<Rightarrow> string \<Rightarrow> nat option" where
  "find_first pat [] = (if pat = [] then Some 0 else None)"
| "find_first pat (c # cs) =
     (if prefix pat (c # cs) then Some 0 else map_option Suc (find_first pat cs))"

primrec find_last :: "string \<Rightarrow> string \<Rightarrow> nat option" where
  "find_last pat [] = (if pat = [] then Some 0 else None)"
| "find_last pat (c # cs) =
     (case find_last pat cs of
        Some j \<Rightarrow> Some (Suc j)
      | None \<Rightarrow> if prefix pat (c # cs) then Some 0 else None)"

text \<open>
  \<^verbatim>\<open>re.sub(r'\{\!.+\!\}', '', txt)\<close>. The dot does not match a newline and \<^verbatim>\<open>.+\<close> is greedy,
  so on each line the match runs from the first \<^verbatim>\<open>{!\<close> to the last \<^verbatim>\<open>!}\<close> of the line, with
  at least one character between the two, and a line has at most one match.
\<close>

definition sub_subtask_line :: "string \<Rightarrow> string" where
  "sub_subtask_line l =
     (case find_first ''{!'' l of
        None \<Rightarrow> l
      | Some i \<Rightarrow>
          (case find_last ''!}'' l of
             None \<Rightarrow> l
           | Some j \<Rightarrow> if i + 3 \<le> j then take i l @ drop (j + 2) l else l))"

definition sub_subtasks :: "string \<Rightarrow> string" where
  "sub_subtasks txt = join [nl] (map sub_subtask_line (split_when (\<lambda>c. c = nl) txt))"

text \<open>The slice \<^verbatim>\<open>xs[:k]\<close>: a negative \<^verbatim>\<open>k\<close> counts from the end.\<close>

definition py_take :: "int \<Rightarrow> 'a list \<Rightarrow> 'a list" where
  "py_take k xs = (if 0 \<le> k then take (nat k) xs else take (length xs - nat (- k)) xs)"

text \<open>
  The empty lines that \<^verbatim>\<open>splitlines\<close> yields are filtered out at once, so a break of two
  characters (\<^verbatim>\<open>\r\n\<close>) needs no case of its own.
\<close>

definition get_excerpt :: "world \<Rightarrow> task \<Rightarrow> int \<Rightarrow> int \<Rightarrow> bool \<Rightarrow> bool \<Rightarrow> string" where
  "get_excerpt S T lines char strip_tags strip_subtasks =
     (if content T \<noteq> []
      then
        let txt = strip (xml_escape (content T));
            txt = (if strip_tags
                   then fold (\<lambda>tag txt.
                          replace (''@'' @ tag) ''''
                            (replace (''@'' @ tag @ '','') ''''
                              (replace (''@'' @ tag @ '', '') '''' txt)))
                          (tags_of S T) txt
                   else txt);
            txt = (if strip_subtasks then sub_subtasks txt else txt);
            ls = filter (\<lambda>line. line \<noteq> []) (split_when is_linebreak txt);
            ls = py_take lines ls;
            txt = join [nl] ls
        in if char > 0 then py_take char txt else txt
      else '''')"

definition five_lines :: string where
  "five_lines = ''one'' @ [nl] @ ''two'' @ [nl] @ ''three'' @ [nl] @ ''four'' @ [nl] @ ''five''"

subsection \<open>\<^verbatim>\<open>get_next_occurrence\<close>\<close>

text \<open>
  The \<^verbatim>\<open>while\<close> loops of \<^verbatim>\<open>get_next_occurrence\<close>: as long as \<open>again\<close> holds of the date,
  advance it. \<open>None\<close> is a loop that does not end; an advance that fails raises
  \<^verbatim>\<open>ValueError\<close>, whatever the exception was (\<^verbatim>\<open>except Exception\<close>).
\<close>

partial_function (option) advance_while ::
  "(date \<Rightarrow> date option) \<Rightarrow> (date \<Rightarrow> bool) \<Rightarrow> date \<Rightarrow> (error + date) option" where
  "advance_while adv again cur =
     (if again cur
      then (case adv cur of
              None \<Rightarrow> Some (Inl ValueError)
            | Some nd \<Rightarrow> advance_while adv again nd)
      else Some (Inr cur))"

text \<open>
  Modelled from the spec: \<^verbatim>\<open>today <= self.due_date\<close> compares a day with a \<^verbatim>\<open>Date\<close> by the
  order of the spec. In that order the \<^verbatim>\<open>elif\<close> is the negation of the \<^verbatim>\<open>if\<close>; where both
  fail Python returns \<^verbatim>\<open>None\<close>, which \<^verbatim>\<open>Date\<close> turns into no date.
\<close>

definition get_next_occurrence :: "env \<Rightarrow> task \<Rightarrow> (error + date) option" where
  "get_next_occurrence E T =
     (let adv = (\<lambda>d. parse_from_date E d (recurring_term T) False);
          due = due_date T;
          td = Concrete (today E)
      in if date_le td due
         then (case adv due of
                 None \<Rightarrow> Some (Inl ValueError)
               | Some nd \<Rightarrow> advance_while adv (\<lambda>d. date_le d due) nd)
         else if date_lt due td
         then (case adv due of
                 None \<Rightarrow> Some (Inl ValueError)
               | Some nd \<Rightarrow> advance_while adv (\<lambda>d. date_lt d td) nd)
         else Some (Inr NoDate))"

text \<open>The date after \<open>k\<close> advances, when each of them parses.\<close>

primrec advances :: "(date \<Rightarrow> date option) \<Rightarrow> nat \<Rightarrow> date \<Rightarrow> date option" where
  "advances adv 0 d = Some d"
| "advances adv (Suc k) d = (case adv d of None \<Rightarrow> None | Some d' \<Rightarrow> advances adv k d')"

text \<open>
  \<open>r\<close> is the first of the dates reached from \<open>due\<close> by one advance or more of which
  \<open>again\<close> does not hold.
\<close>

definition first_advanced :: "(date \<Rightarrow> date option) \<Rightarrow> (date \<Rightarrow> bool) \<Rightarrow> date \<Rightarrow> date \<Rightarrow> bool" where
  "first_advanced adv again due r =
     (\<exists>k. advances adv (Suc k) due = Some r \<and> \<not> again r
        \<and> (\<forall>j<k. \<exists>d'. advances adv (Suc j) due = Some d' \<and> again d'))"

definition recurring_task :: "date \<Rightarrow> task" where
  "recurring_task d = (init_task env0 0 True)\<lparr>due_date := d, recurring := True, recurring_term := Some ''day''\<rparr>"

definition first_advance :: "(date \<Rightarrow> date option) \<Rightarrow> (date \<Rightarrow> bool) \<Rightarrow> date \<Rightarrow> date \<Rightarrow> bool" where
  "first_advance adv again d r =
     (\<exists>k. advances adv k d = Some r \<and> \<not> again r
        \<and> (\<forall>j<k. \<exists>d'. advances adv j d = Some d' \<and> again d'))"

subsection \<open>Due dates\<close>

definition set_start_date :: "env \<Rightarrow> tid \<Rightarrow> date \<Rightarrow> world \<Rightarrow> world" where
  "set_start_date E t fulldate S = snd (sync E t (upd t (\<lambda>T. T\<lparr>start_date := fulldate\<rparr>) S))"

text \<open>\<^verbatim>\<open>recursive_sync\<close>: \<^verbatim>\<open>sync\<close> of the task, then of every task below it.\<close>

primrec recursive_sync :: "nat \<Rightarrow> env \<Rightarrow> tid \<Rightarrow> world \<Rightarrow> error + world" where
  "recursive_sync 0 = (\<lambda>E t S. Inl RecursionError)"
| "recursive_sync (Suc n) = (\<lambda>E t S.
     case tasks S t of
       None \<Rightarrow> Inl MissingTask
     | Some T \<Rightarrow> foldE (recursive_sync n E) (children T) (snd (sync E t S)))"

text \<open>
  The two local functions of \<^verbatim>\<open>set_due_date\<close> differ in the list they follow,
  \<^verbatim>\<open>task.parents\<close> or \<^verbatim>\<open>task.children\<close>, here \<open>nb\<close>. They return the tasks found, here
  their identifiers: each neighbour whose due date is not fuzzy and, for each neighbour
  whose due date is fuzzy, what the function finds from there.
\<close>

definition add_defined ::
  "(tid \<Rightarrow> error + tid list) \<Rightarrow> world \<Rightarrow> tid \<Rightarrow> tid list \<Rightarrow> error + tid list" where
  "add_defined rec S x found =
     (case tasks S x of
        None \<Rightarrow> Inl MissingTask
      | Some X \<Rightarrow>
          if is_fuzzy (due_date X)
          then bindE (rec x) (\<lambda>l. Inr (found @ l))
          else Inr (found @ [x]))"

primrec get_defined_list :: "(task \<Rightarrow> tid list) \<Rightarrow> nat \<Rightarrow> world \<Rightarrow> tid \<Rightarrow> error + tid list" where
  "get_defined_list nb 0 = (\<lambda>S t. Inl RecursionError)"
| "get_defined_list nb (Suc n) = (\<lambda>S t.
     case tasks S t of
       None \<Rightarrow> Inl MissingTask
     | Some T \<Rightarrow> foldE (add_defined (get_defined_list nb n S) S) (nb T) [])"

definition get_defined_parent_list :: "nat \<Rightarrow> world \<Rightarrow> tid \<Rightarrow> error + tid list" where
  "get_defined_parent_list = get_defined_list parents"

definition get_defined_child_list :: "nat \<Rightarrow> world \<Rightarrow> tid \<Rightarrow> error + tid list" where
  "get_defined_child_list = get_defined_list children"

text \<open>
  The bodies of the two loops of \<^verbatim>\<open>set_due_date\<close>, with the recursive call as \<open>rec\<close>. Each
  reads the dates of the task it has reached in the world as it is then.
\<close>

definition pull_parent ::
  "(tid \<Rightarrow> date \<Rightarrow> world \<Rightarrow> error + world) \<Rightarrow> date \<Rightarrow> tid \<Rightarrow> world \<Rightarrow> error + world" where
  "pull_parent rec new_duedate p S =
     (case tasks S p of
        None \<Rightarrow> Inl MissingTask
      | Some par \<Rightarrow> if date_lt (due_date par) new_duedate then rec p new_duedate S else Inr S)"

definition pull_child ::
  "env \<Rightarrow> (tid \<Rightarrow> date \<Rightarrow> world \<Rightarrow> error + world) \<Rightarrow> date \<Rightarrow> tid \<Rightarrow> world \<Rightarrow> error + world" where
  "pull_child E rec new_duedate c S =
     (case tasks S c of
        None \<Rightarrow> Inl MissingTask
      | Some sub \<Rightarrow>
          bindE (if date_lt new_duedate (due_date sub) then rec c new_duedate S else Inr S)
            (\<lambda>S'. case tasks S' c of
                     None \<Rightarrow> Inl MissingTask
                   | Some sub' \<Rightarrow>
                       if \<not> is_fuzzy (start_date sub') \<and> date_lt new_duedate (start_date sub')
                       then Inr (set_start_date E c new_duedate S')
                       else Inr S'))"

text \<open>
  \<^verbatim>\<open>set_due_date\<close>. \<^verbatim>\<open>Date(new_duedate)\<close> is the date itself here. The list of parents is
  made before the loop over it, and the list of children after that loop.
\<close>

primrec set_due_date :: "nat \<Rightarrow> env \<Rightarrow> tid \<Rightarrow> date \<Rightarrow> world \<Rightarrow> error + world" where
  "set_due_date 0 = (\<lambda>E t new_duedate S. Inl RecursionError)"
| "set_due_date (Suc n) = (\<lambda>E t new_duedate S.
     case tasks S t of
       None \<Rightarrow> Inl MissingTask
     | Some T \<Rightarrow>
         let old_due_date = due_date T;
             S1 = upd t (\<lambda>T. T\<lparr>due_date := new_duedate\<rparr>) S
         in bindE
              (if \<not> is_fuzzy new_duedate
               then
                 bindE (get_defined_parent_list n S1 t) (\<lambda>ps.
                 bindE (foldE (pull_parent (set_due_date n E) new_duedate) ps S1) (\<lambda>S2.
                 bindE (get_defined_child_list n S2 t) (\<lambda>cs.
                 foldE (pull_child E (set_due_date n E) new_duedate) cs S2)))
               else Inr S1)
              (\<lambda>S3. if old_due_date \<noteq> new_duedate then recursive_sync n E t S3 else Inr S3))"



definition events_after :: "error + world \<Rightarrow> event list option" where
  "events_after r = (case r of Inl e \<Rightarrow> None | Inr S \<Rightarrow> Some (events S))"

subsection \<open>Worlds with a chain of three tasks\<close>

text \<open>A grandparent \<^verbatim>\<open>g\<close>, its child \<^verbatim>\<open>p\<close>, and the child \<^verbatim>\<open>c\<close> of \<^verbatim>\<open>p\<close>, with given due dates.\<close>

definition chain_task :: "date \<Rightarrow> tid list \<Rightarrow> tid list \<Rightarrow> task" where
  "chain_task d ps cs = (init_task env0 0 True)\<lparr>due_date := d, parents := ps, children := cs\<rparr>"

definition chain_world :: "date \<Rightarrow> date \<Rightarrow> date \<Rightarrow> world" where
  "chain_world dg dp dc =
     world_of [''g'' \<mapsto> chain_task dg [] [''p''],
               ''p'' \<mapsto> chain_task dp [''g''] [''c''],
               ''c'' \<mapsto> chain_task dc [''p''] []]"

subsection \<open>Notions for the properties of \<^verbatim>\<open>set_due_date\<close>\<close>

text \<open>
  What a call of \<^verbatim>\<open>set_due_date\<close> with the date \<open>d\<close> may do to a task: give it the due
  date \<open>d\<close> when its due date is not fuzzy, give it the start date \<open>d\<close> when its start date
  is not fuzzy and later than \<open>d\<close>, and stamp it.
\<close>

definition task_step :: "date \<Rightarrow> task \<Rightarrow> task \<Rightarrow> bool" where
  "task_step d T T' \<longleftrightarrow>
     T' = T\<lparr>due_date := due_date T', start_date := start_date T', last_modified := last_modified T'\<rparr>
     \<and> (due_date T' = due_date T \<or> \<not> is_fuzzy (due_date T) \<and> due_date T' = d)
     \<and> (start_date T' = start_date T
          \<or> \<not> is_fuzzy (start_date T) \<and> date_lt d (start_date T) \<and> start_date T' = d)"

definition dd_step :: "date \<Rightarrow> world \<Rightarrow> world \<Rightarrow> bool" where
  "dd_step d S S' \<longleftrightarrow>
     (\<forall>u. rel_option (task_step d) (tasks S u) (tasks S' u))
     \<and> tag_lists S' = tag_lists S \<and> tag_registry S' = tag_registry S
     \<and> next_ref S' = next_ref S \<and> fresh_ids S' = fresh_ids S"

text \<open>
  The nearest ancestors (with \<open>nb = parents\<close>) or descendants (with \<open>nb = children\<close>) of a
  task that have a due date which is not fuzzy: those reached by a path on which every task
  in between has a fuzzy or undefined due date.
\<close>

inductive defined_via :: "(task \<Rightarrow> tid list) \<Rightarrow> world \<Rightarrow> tid \<Rightarrow> tid \<Rightarrow> bool"
  for nb :: "task \<Rightarrow> tid list" and S :: world where
  direct: "tasks S t = Some T \<Longrightarrow> x \<in> set (nb T) \<Longrightarrow> tasks S x = Some X
             \<Longrightarrow> \<not> is_fuzzy (due_date X) \<Longrightarrow> defined_via nb S t x"
| through: "tasks S t = Some T \<Longrightarrow> x \<in> set (nb T) \<Longrightarrow> tasks S x = Some X
             \<Longrightarrow> is_fuzzy (due_date X) \<Longrightarrow> defined_via nb S x a \<Longrightarrow> defined_via nb S t a"

definition same_skel :: "world \<Rightarrow> world \<Rightarrow> bool" where
  "same_skel S S' \<longleftrightarrow>
     (\<forall>u. rel_option (\<lambda>T T'. parents T' = parents T \<and> children T' = children T
                          \<and> is_fuzzy (due_date T') = is_fuzzy (due_date T))
            (tasks S u) (tasks S' u))"

subsection \<open>The constraint between the due dates of a parent and a child\<close>




subsection \<open>\<^verbatim>\<open>set_recurring\<close>\<close>

text \<open>
  The local function \<^verbatim>\<open>is_valid_term\<close>: whether a next date can be computed from the term,
  and that date. The start is the start date of the task, or today when it has none.
\<close>

definition is_valid_term :: "env \<Rightarrow> task \<Rightarrow> string option \<Rightarrow> bool \<Rightarrow> bool \<times> date option" where
  "is_valid_term E T term_arg newtask =
     (case term_arg of
        None \<Rightarrow> (False, None)
      | Some tm \<Rightarrow>
          let start_from = (if start_date T = NoDate then Concrete (today E) else start_date T)
          in (case parse_from_date E start_from (Some tm) newtask of
                None \<Rightarrow> (False, None)
              | Some newdate \<Rightarrow> (True, Some newdate)))"

text \<open>\<^verbatim>\<open>Date(value)\<close> of a value that may be \<^verbatim>\<open>None\<close>: no date then.\<close>

definition date_of :: "date option \<Rightarrow> date" where
  "date_of v = (case v of None \<Rightarrow> NoDate | Some d \<Rightarrow> d)"

text \<open>\<^verbatim>\<open>status in (self.STA_ACTIVE)\<close>: the parentheses make no tuple, the test is for a substring.\<close>

definition in_active :: "string \<Rightarrow> bool" where
  "in_active s = sublist s STA_ACTIVE"

primrec set_recurring ::
  "nat \<Rightarrow> env \<Rightarrow> tid \<Rightarrow> bool \<Rightarrow> string option \<Rightarrow> bool \<Rightarrow> world \<Rightarrow> error + world" where
  "set_recurring 0 = (\<lambda>E t recurring_arg term_arg newtask S. Inl RecursionError)"
| "set_recurring (Suc n) = (\<lambda>E t recurring_arg term_arg newtask S.
     case tasks S t of
       None \<Rightarrow> Inl MissingTask
     | Some T \<Rightarrow>
         let S1 = upd t (\<lambda>T. T\<lparr>recurring := recurring_arg\<rparr>) S;
             valid = fst (is_valid_term E T term_arg newtask);
             newdate = snd (is_valid_term E T term_arg newtask);
             term_arg = (if valid then term_arg else None)
         in bindE
              (if recurring_arg
               then if \<not> valid
                    then Inr (upd t (\<lambda>T. T\<lparr>recurring_term := None, recurring := False\<rparr>) S1)
                    else let S2 = upd t (\<lambda>T. T\<lparr>recurring_term := term_arg,
                                                 recurring_updated_date := Some (now E)\<rparr>) S1
                         in if newtask then set_due_date n E t (date_of newdate) S2 else Inr S2
               else if valid
                    then Inr (upd t (\<lambda>T. T\<lparr>recurring_term := term_arg,
                                            recurring_updated_date := Some (now E)\<rparr>) S1)
                    else Inr S1)
              (\<lambda>S3.
                 let S4 = snd (sync E t S3)
                 in case tasks S4 t of
                      None \<Rightarrow> Inl MissingTask
                    | Some T4 \<Rightarrow>
                        foldE (\<lambda>c S'.
                                 case tasks S' c of
                                   None \<Rightarrow> Inl MissingTask
                                 | Some child \<Rightarrow>
                                     if loaded child \<and> in_active (status child)
                                     then (case tasks S' t of
                                             None \<Rightarrow> Inl MissingTask
                                           | Some self \<Rightarrow>
                                               bindE (set_recurring n E c (recurring self)
                                                        (recurring_term self) False S')
                                                 (\<lambda>S''. case tasks S'' t of
                                                           None \<Rightarrow> Inl MissingTask
                                                         | Some self' \<Rightarrow>
                                                             if recurring self'
                                                             then set_due_date n E c (date_of newdate) S''
                                                             else Inr S''))
                                     else Inr S')
                          (children T4) S4))"

definition recurrence_after :: "error + world \<Rightarrow> tid \<Rightarrow> (bool \<times> string option \<times> int option) option" where
  "recurrence_after r t =
     (case r of
        Inl e \<Rightarrow> None
      | Inr S \<Rightarrow> map_option (\<lambda>T. (recurring T, recurring_term T, recurring_updated_date T)) (tasks S t))"

subsection \<open>Titles\<close>

text \<open>\<^verbatim>\<open>title.strip('\t\n')\<close> removes tabs and newlines at both ends.\<close>

definition strip_chars :: "string \<Rightarrow> string \<Rightarrow> string" where
  "strip_chars cs s = rev (dropWhile (\<lambda>c. c \<in> set cs) (rev (dropWhile (\<lambda>c. c \<in> set cs) s)))"

definition set_title :: "env \<Rightarrow> tid \<Rightarrow> string \<Rightarrow> world \<Rightarrow> bool \<times> world" where
  "set_title E t title_arg S =
     (let title1 = (if title_arg \<noteq> [] then strip_chars [CHR 0x09, nl] title_arg
                    else ''(no title task)'')
      in case tasks S t of
           None \<Rightarrow> (False, S)
         | Some T \<Rightarrow>
             if title1 = title T then (False, S)
             else (True, snd (sync E t (upd t (\<lambda>T. T\<lparr>title := title1\<rparr>) S))))"

subsection \<open>Children and inherited recurrence\<close>

text \<open>
  \<^verbatim>\<open>inherit_recursion\<close>: a task with parents takes the term and the due date of each parent
  that is recurring and loaded; a task without parents is set to not recurring.
\<close>

definition inherit_recursion :: "nat \<Rightarrow> env \<Rightarrow> tid \<Rightarrow> world \<Rightarrow> error + world" where
  "inherit_recursion n E t S =
     (case tasks S t of
        None \<Rightarrow> Inl MissingTask
      | Some T \<Rightarrow>
          if parents T \<noteq> []
          then foldE (\<lambda>p S'.
                        case tasks S' p of
                          None \<Rightarrow> Inl MissingTask
                        | Some par \<Rightarrow>
                            if recurring par \<and> loaded par
                            then bindE (set_recurring n E t True (recurring_term par) False S')
                                   (\<lambda>S''. case tasks S'' p of
                                             None \<Rightarrow> Inl MissingTask
                                           | Some par' \<Rightarrow> set_due_date n E t (due_date par') S'')
                            else Inr S')
                 (parents T) S
          else set_recurring n E t False None False S)"

text \<open>
  Modelled from the spec: \<^verbatim>\<open>TreeNode.add_child\<close> of the tree collaborator is not part of the
  sources at hand. It records the edge in the list of children of the parent and in the
  list of parents of the child.
\<close>

definition tree_add_child :: "tid \<Rightarrow> tid \<Rightarrow> world \<Rightarrow> world" where
  "tree_add_child p c S =
     upd c (\<lambda>C. C\<lparr>parents := (if p \<in> set (parents C) then parents C else parents C @ [p])\<rparr>)
       (upd p (\<lambda>P. P\<lparr>children := (if c \<in> set (children P) then children P else children P @ [c])\<rparr>) S)"

text \<open>A tag that \<^verbatim>\<open>get_tags\<close> does not find in the registry is created there.\<close>

definition tag_ensure :: "string \<Rightarrow> world \<Rightarrow> world" where
  "tag_ensure name S =
     (if name \<in> set (tag_registry S) then S
      else notify (TagCreated name) (S\<lparr>tag_registry := tag_registry S @ [name]\<rparr>))"

text \<open>
  \<^verbatim>\<open>add_child\<close>. A child that is still new takes the start date, the due date and the tags
  of the task and inherits its recurrence.
\<close>

definition add_child :: "nat \<Rightarrow> env \<Rightarrow> tid \<Rightarrow> tid \<Rightarrow> world \<Rightarrow> error + world" where
  "add_child n E t tid S =
     (let S1 = tree_add_child t tid (upd t (\<lambda>T. T\<lparr>can_be_deleted := False\<rparr>) S)
      in case tasks S1 t of
           None \<Rightarrow> Inl MissingTask
         | Some self \<Rightarrow>
             bindE
               (case tasks S1 tid of
                  None \<Rightarrow> Inr S1
                | Some child \<Rightarrow>
                    if loaded self \<and> can_be_deleted child
                    then bindE
                           (if \<not> recurring child
                            then set_due_date n E tid (due_date self)
                                   (set_start_date E tid (start_date self) S1)
                            else Inr S1)
                           (\<lambda>S2. case tasks S2 t of
                                    None \<Rightarrow> Inl MissingTask
                                  | Some self2 \<Rightarrow>
                                      bindE (foldE (add_tag n E tid) (tags_of S2 self2)
                                               (fold tag_ensure (tags_of S2 self2) S2))
                                        (inherit_recursion n E tid))
                    else Inr S1)
               (\<lambda>S5. Inr (snd (sync E t S5))))"

subsection \<open>Duplicating a task\<close>

text \<open>
  Modelled from the spec: \<^verbatim>\<open>req.ds.new_task()\<close> of the datastore is not part of the sources
  at hand. It makes a task with a fresh identity, by \<^verbatim>\<open>Task.__init__\<close> with \<^verbatim>\<open>newtask\<close>,
  and puts it into the tree without parents. The constructor, which is in the sources, gives
  the attributes of \<open>init_task\<close> with a new list of tags and ends with
  \<^verbatim>\<open>inherit_recursion\<close>, which for a task without parents is \<^verbatim>\<open>set_recurring(False)\<close>.
\<close>

definition new_task :: "nat \<Rightarrow> env \<Rightarrow> world \<Rightarrow> error + (tid \<times> world)" where
  "new_task n E S =
     (case fresh_ids S of
        [] \<Rightarrow> Inl NoFreshId
      | tid # rest \<Rightarrow>
          if tasks S tid \<noteq> None then Inl NoFreshId
          else bindE
                 (set_recurring n E tid False None False
                    (S\<lparr>tasks := (tasks S)(tid \<mapsto> init_task E (next_ref S) True),
                       tag_lists := (tag_lists S)(next_ref S := []),
                       next_ref := Suc (next_ref S),
                       fresh_ids := rest\<rparr>))
                 (\<lambda>S'. Inr (tid, S')))"

text \<open>
  \<^verbatim>\<open>duplicate\<close> returns the copy, here its identifier. The copy gets the list object of the
  tags of the task, not a copy of the list.
\<close>

definition duplicate :: "nat \<Rightarrow> env \<Rightarrow> tid \<Rightarrow> world \<Rightarrow> error + (tid \<times> world)" where
  "duplicate n E t S =
     bindE (new_task n E S) (\<lambda>r1.
       let copy = fst r1; S1 = snd r1
       in case tasks S1 t of
            None \<Rightarrow> Inl MissingTask
          | Some T1 \<Rightarrow>
              bindE (set_recurring n E copy True (recurring_term T1) False S1) (\<lambda>S2.
                case tasks S2 t of
                  None \<Rightarrow> Inl MissingTask
                | Some T2 \<Rightarrow>
                    (case get_next_occurrence E T2 of
                       None \<Rightarrow> Inl NoReturn
                     | Some (Inl e) \<Rightarrow> Inl e
                     | Some (Inr nextdate) \<Rightarrow>
                         bindE (set_due_date n E copy nextdate S2) (\<lambda>S3.
                           case tasks S3 t of
                             None \<Rightarrow> Inl MissingTask
                           | Some T3 \<Rightarrow>
                               let S4 = snd (set_title E copy (title T3) S3)
                               in (case tasks S4 t of
                                     None \<Rightarrow> Inl MissingTask
                                   | Some T4 \<Rightarrow>
                                       Inr (copy, upd copy (\<lambda>C. C\<lparr>content := content T4,
                                                                 tags := tags T4\<rparr>) S4))))))"

primrec duplicate_recursively :: "nat \<Rightarrow> env \<Rightarrow> tid \<Rightarrow> world \<Rightarrow> error + (tid \<times> world)" where
  "duplicate_recursively 0 = (\<lambda>E t S. Inl RecursionError)"
| "duplicate_recursively (Suc n) = (\<lambda>E t S.
     bindE (duplicate n E t S) (\<lambda>r1.
       let newtask = fst r1; S1 = snd r1
       in case tasks S1 t of
            None \<Rightarrow> Inl MissingTask
          | Some T \<Rightarrow>
              bindE (foldE (\<lambda>c S'.
                              case tasks S' c of
                                None \<Rightarrow> Inl MissingTask
                              | Some child \<Rightarrow>
                                  if loaded child
                                  then bindE (duplicate_recursively n E c S')
                                         (\<lambda>r2. add_child n E newtask (fst r2) (snd r2))
                                  else Inr S')
                       (children T) S1)
                (\<lambda>S2. Inr (newtask, snd (sync E newtask S2)))))"

subsection \<open>\<^verbatim>\<open>set_status\<close>\<close>

text \<open>
  \<^verbatim>\<open>is_parent_recurring\<close> answers at the first parent that is loaded, has a status inside
  \<^verbatim>\<open>Active\<close> and is recurring; it looks no parent up after that one.
\<close>

primrec any_parent_recurring :: "world \<Rightarrow> tid list \<Rightarrow> error + bool" where
  "any_parent_recurring S [] = Inr False"
| "any_parent_recurring S (p # ps) =
     (case tasks S p of
        None \<Rightarrow> Inl MissingTask
      | Some par \<Rightarrow>
          if loaded par \<and> in_active (status par) \<and> recurring par then Inr True
          else any_parent_recurring S ps)"

definition is_parent_recurring :: "world \<Rightarrow> tid \<Rightarrow> error + bool" where
  "is_parent_recurring S t =
     (case tasks S t of None \<Rightarrow> Inl MissingTask | Some T \<Rightarrow> any_parent_recurring S (parents T))"

text \<open>A status that Python takes as true: not \<^verbatim>\<open>None\<close> and not the empty string.\<close>

definition truthy :: "string option \<Rightarrow> bool" where
  "truthy st = (case st of None \<Rightarrow> False | Some s \<Rightarrow> s \<noteq> [])"

definition closes :: "string option \<Rightarrow> bool" where
  "closes st = (case st of None \<Rightarrow> False | Some s \<Rightarrow> s = STA_DONE \<or> s = STA_DISMISSED)"

text \<open>
  The step of \<^verbatim>\<open>set_status\<close> for a recurring task that was closed by hand: duplicate it
  with its children and put the duplicate under each parent that is loaded and active.
\<close>

definition spawn_next :: "nat \<Rightarrow> env \<Rightarrow> tid \<Rightarrow> world \<Rightarrow> error + world" where
  "spawn_next n E t S =
     bindE (duplicate_recursively n E t S) (\<lambda>r.
       let nexttask_tid = fst r; S2 = snd r
       in case tasks S2 t of
            None \<Rightarrow> Inl MissingTask
          | Some T2 \<Rightarrow>
              foldE (\<lambda>p S'.
                       case tasks S' p of
                         None \<Rightarrow> Inl MissingTask
                       | Some par \<Rightarrow>
                           if loaded par \<and> in_active (status par)
                           then bindE (add_child n E p nexttask_tid S')
                                  (\<lambda>S''. Inr (snd (sync E p S'')))
                           else Inr S')
                (parents T2) S2)"

text \<open>
  The bodies of the two loops of \<^verbatim>\<open>set_status\<close>, with the recursive call as \<open>rec\<close>: an
  active child of a task that is closed is closed with it, as a propagation; a parent that
  is loaded and closed is made active again when the task is.
\<close>

definition close_child ::
  "(tid \<Rightarrow> string option \<Rightarrow> date option \<Rightarrow> bool \<Rightarrow> bool \<Rightarrow> world \<Rightarrow> error + world)
     \<Rightarrow> string option \<Rightarrow> date option \<Rightarrow> tid \<Rightarrow> world \<Rightarrow> error + world" where
  "close_child rec status_arg donedate c S =
     (case tasks S c of
        None \<Rightarrow> Inl MissingTask
      | Some sub \<Rightarrow>
          if status sub = STA_ACTIVE then rec c status_arg donedate True False S else Inr S)"

definition reopen_parent ::
  "(tid \<Rightarrow> string option \<Rightarrow> date option \<Rightarrow> bool \<Rightarrow> bool \<Rightarrow> world \<Rightarrow> error + world)
     \<Rightarrow> tid \<Rightarrow> world \<Rightarrow> error + world" where
  "reopen_parent rec p S =
     (case tasks S p of
        None \<Rightarrow> Inl MissingTask
      | Some par \<Rightarrow>
          if loaded par \<and> (status par = STA_DONE \<or> status par = STA_DISMISSED)
          then rec p (Some STA_ACTIVE) None False False S
          else Inr S)"

text \<open>
  The end of \<^verbatim>\<open>set_status\<close>: the signal and the new status, the closing date, and
  \<^verbatim>\<open>sync\<close>. Modelled from the spec: a done date is \<open>None\<close> when none is supplied, and a
  supplied one counts as true. The signal \<^verbatim>\<open>status-changed\<close> that \<^verbatim>\<open>GLib.idle_add\<close> queues
  is logged where it is queued.
\<close>

definition finish_status ::
  "env \<Rightarrow> tid \<Rightarrow> string option \<Rightarrow> date option \<Rightarrow> bool \<Rightarrow> world \<Rightarrow> world" where
  "finish_status E t status_arg donedate init S3 =
     (let S4 = (case status_arg of
                  None \<Rightarrow> S3
                | Some s \<Rightarrow>
                    if s \<noteq> []
                    then upd t (\<lambda>T. T\<lparr>status := s\<rparr>)
                           (if \<not> init
                            then (case tasks S3 t of
                                    None \<Rightarrow> S3
                                  | Some T3 \<Rightarrow> notify (StatusChanged t (status T3) s) S3)
                            else S3)
                    else S3);
          S5 = (if closes status_arg
                then upd t (\<lambda>T. T\<lparr>closed_date :=
                        (case donedate of Some dd \<Rightarrow> dd | None \<Rightarrow> Concrete (today E))\<rparr>) S4
                else S4)
      in snd (sync E t S5))"

primrec set_status ::
  "nat \<Rightarrow> env \<Rightarrow> tid \<Rightarrow> string option \<Rightarrow> date option \<Rightarrow> bool \<Rightarrow> bool \<Rightarrow> world \<Rightarrow> error + world" where
  "set_status 0 = (\<lambda>E t status_arg donedate propagation init S. Inl RecursionError)"
| "set_status (Suc n) = (\<lambda>E t status_arg donedate propagation init S.
     case tasks S t of
       None \<Rightarrow> Inl MissingTask
     | Some T \<Rightarrow>
         let old_status = status T;
             S0 = upd t (\<lambda>T. T\<lparr>can_be_deleted := False\<rparr>) S
         in bindE
              (if truthy status_arg \<and> loaded T
               then if closes status_arg
                    then bindE
                           (foldE (close_child (set_status n E) status_arg donedate) (children T) S0)
                           (\<lambda>S1. case tasks S1 t of
                                    None \<Rightarrow> Inl MissingTask
                                  | Some T1 \<Rightarrow>
                                      if recurring T1 \<and> \<not> propagation
                                      then bindE (is_parent_recurring S1 t)
                                             (\<lambda>b. if \<not> b then spawn_next n E t S1 else Inr S1)
                                      else Inr S1)
                    else if status_arg = Some STA_ACTIVE
                            \<and> (old_status = STA_DONE \<or> old_status = STA_DISMISSED)
                    then foldE (reopen_parent (set_status n E)) (parents T) S0
                    else Inr S0
               else Inr S0)
              (\<lambda>S3. Inr (finish_status E t status_arg donedate init S3)))"

definition deletable_after :: "error + world \<Rightarrow> tid \<Rightarrow> bool option" where
  "deletable_after r t =
     (case r of Inl e \<Rightarrow> None | Inr S \<Rightarrow> map_option can_be_deleted (tasks S t))"

subsection \<open>Notions for the properties of \<^verbatim>\<open>set_status\<close>\<close>

definition is_closed :: "string \<Rightarrow> bool" where
  "is_closed s \<longleftrightarrow> s = STA_DONE \<or> s = STA_DISMISSED"

definition status_of :: "world \<Rightarrow> tid \<Rightarrow> string option" where
  "status_of S t = map_option status (tasks S t)"

text \<open>The ancestors of a task: its parents, and their ancestors.\<close>

inductive ancestor :: "world \<Rightarrow> tid \<Rightarrow> tid \<Rightarrow> bool" for S :: world where
  parent: "tasks S t = Some T \<Longrightarrow> p \<in> set (parents T) \<Longrightarrow> ancestor S t p"
| above: "tasks S t = Some T \<Longrightarrow> p \<in> set (parents T) \<Longrightarrow> ancestor S p a \<Longrightarrow> ancestor S t a"

text \<open>
  The ancestors reached from a task by a chain of parents of which each is loaded and done
  or dismissed.
\<close>

inductive closed_above :: "world \<Rightarrow> tid \<Rightarrow> tid \<Rightarrow> bool" for S :: world where
  parent: "tasks S t = Some T \<Longrightarrow> p \<in> set (parents T) \<Longrightarrow> tasks S p = Some P \<Longrightarrow> loaded P
             \<Longrightarrow> is_closed (status P) \<Longrightarrow> closed_above S t p"
| above: "tasks S t = Some T \<Longrightarrow> p \<in> set (parents T) \<Longrightarrow> tasks S p = Some P \<Longrightarrow> loaded P
             \<Longrightarrow> is_closed (status P) \<Longrightarrow> closed_above S p a \<Longrightarrow> closed_above S t a"

text \<open>
  What a call of \<^verbatim>\<open>set_status\<close> with \<^verbatim>\<open>Active\<close> may do to a task: make it active, take
  its deletable flag, and stamp it.
\<close>

definition task_reopen :: "task \<Rightarrow> task \<Rightarrow> bool" where
  "task_reopen T T' \<longleftrightarrow>
     T' = T\<lparr>status := status T', can_be_deleted := can_be_deleted T',
            last_modified := last_modified T'\<rparr>
     \<and> (status T' = status T \<or> status T' = STA_ACTIVE)"

definition reopen_step :: "world \<Rightarrow> world \<Rightarrow> bool" where
  "reopen_step S S' \<longleftrightarrow>
     (\<forall>u. rel_option task_reopen (tasks S u) (tasks S' u))
     \<and> tag_lists S' = tag_lists S \<and> tag_registry S' = tag_registry S
     \<and> next_ref S' = next_ref S \<and> fresh_ids S' = fresh_ids S"

text \<open>
  Every loaded task that the step has made active again has no parent left that is loaded
  and closed.
\<close>

definition reopened_up :: "world \<Rightarrow> world \<Rightarrow> bool" where
  "reopened_up S S' \<longleftrightarrow>
     (\<forall>u U q Q. tasks S u = Some U \<and> loaded U \<and> is_closed (status U)
         \<and> status_of S' u = Some STA_ACTIVE
         \<and> q \<in> set (parents U) \<and> tasks S' q = Some Q \<and> loaded Q
       \<longrightarrow> \<not> is_closed (status Q))"

text \<open>
  A tree in which every parent of a task is a task and has a smaller rank: no task is its
  own ancestor.
\<close>

definition ranked :: "world \<Rightarrow> (tid \<Rightarrow> nat) \<Rightarrow> bool" where
  "ranked S rank \<longleftrightarrow>
     (\<forall>t T p. tasks S t = Some T \<and> p \<in> set (parents T) \<longrightarrow> tasks S p \<noteq> None \<and> rank p < rank t)"

text \<open>
  What a call of \<^verbatim>\<open>set_status\<close> with \<^verbatim>\<open>Active\<close> on the task \<open>t\<close> does to the tree: it only
  reopens tasks, leaves no reopened task with a loaded parent that is still closed, and
  leaves every task other than \<open>t\<close> and its ancestors as it was.
\<close>

definition reopens :: "tid \<Rightarrow> world \<Rightarrow> world \<Rightarrow> bool" where
  "reopens t S S' \<longleftrightarrow>
     reopen_step S S' \<and> reopened_up S S'
     \<and> (\<forall>u. u \<noteq> t \<and> \<not> ancestor S t u \<longrightarrow> tasks S' u = tasks S u)"

definition status_after :: "error + world \<Rightarrow> tid \<Rightarrow> string option" where
  "status_after r t = (case r of Inl e \<Rightarrow> None | Inr S \<Rightarrow> status_of S t)"

text \<open>
  A family of three loaded tasks, \<^verbatim>\<open>g\<close> above \<^verbatim>\<open>p\<close> above \<^verbatim>\<open>c\<close>, with their statuses, and
  with \<^verbatim>\<open>c\<close> loaded or not; and the depth of each in it.
\<close>

definition family_task :: "string \<Rightarrow> bool \<Rightarrow> tid list \<Rightarrow> tid list \<Rightarrow> task" where
  "family_task st ld ps cs =
     (init_task env0 0 True)\<lparr>status := st, loaded := ld, parents := ps, children := cs\<rparr>"

definition family_world :: "string \<Rightarrow> string \<Rightarrow> string \<Rightarrow> bool \<Rightarrow> world" where
  "family_world sg sp sc lc =
     world_of [''g'' \<mapsto> family_task sg True [] [''p''],
               ''p'' \<mapsto> family_task sp True [''g''] [''c''],
               ''c'' \<mapsto> family_task sc lc [''p''] []]"

definition family_rank :: "tid \<Rightarrow> nat" where
  "family_rank u = (if u = ''g'' then 0 else if u = ''p'' then 1 else 2)"

text \<open>
  A step that keeps the status and the closing date of every task there is. A result keeps
  them when it is an error or a world that does.
\<close>

definition same_status :: "world \<Rightarrow> world \<Rightarrow> bool" where
  "same_status S S' \<longleftrightarrow>
     (\<forall>u T. tasks S u = Some T
        \<longrightarrow> (\<exists>T'. tasks S' u = Some T' \<and> status T' = status T \<and> closed_date T' = closed_date T))"

definition pres :: "world \<Rightarrow> error + world \<Rightarrow> bool" where
  "pres S r = (case r of Inl e \<Rightarrow> True | Inr S' \<Rightarrow> same_status S S')"

definition pres2 :: "world \<Rightarrow> error + ('a \<times> world) \<Rightarrow> bool" where
  "pres2 S r = (case r of Inl e \<Rightarrow> True | Inr v \<Rightarrow> same_status S (snd v))"

text \<open>
  The closing date that \<^verbatim>\<open>set_status\<close> is to give: the done date supplied, or else today.
\<close>

definition done_date :: "env \<Rightarrow> date option \<Rightarrow> date" where
  "done_date E donedate = (case donedate of Some dd \<Rightarrow> dd | None \<Rightarrow> Concrete (today E))"

definition closed_as :: "string \<Rightarrow> date \<Rightarrow> world \<Rightarrow> tid \<Rightarrow> bool" where
  "closed_as st d S u =
     (case tasks S u of None \<Rightarrow> False | Some U \<Rightarrow> status U = st \<and> closed_date U = d)"

definition closed_after :: "string \<Rightarrow> date \<Rightarrow> error + world \<Rightarrow> tid \<Rightarrow> bool" where
  "closed_after st d r u = (case r of Inl e \<Rightarrow> False | Inr S \<Rightarrow> closed_as st d S u)"

text \<open>
  The descendants that the cascade of \<^verbatim>\<open>set_status\<close> reaches: the active children of a
  loaded task, and the active children of every loaded task among those reached.
\<close>

inductive active_below :: "world \<Rightarrow> tid \<Rightarrow> tid \<Rightarrow> bool" for S :: world where
  child: "tasks S t = Some T \<Longrightarrow> loaded T \<Longrightarrow> c \<in> set (children T) \<Longrightarrow> tasks S c = Some C
            \<Longrightarrow> status C = STA_ACTIVE \<Longrightarrow> active_below S t c"
| below: "active_below S t m \<Longrightarrow> tasks S m = Some M \<Longrightarrow> loaded M \<Longrightarrow> c \<in> set (children M)
            \<Longrightarrow> tasks S c = Some C \<Longrightarrow> status C = STA_ACTIVE \<Longrightarrow> active_below S t c"

text \<open>
  What a cascade with the status \<open>st\<close> and the date \<open>d\<close> may do to a task: close an active
  task with them, take the deletable flag, and stamp it.
\<close>

definition task_close :: "string \<Rightarrow> date \<Rightarrow> task \<Rightarrow> task \<Rightarrow> bool" where
  "task_close st d T T' \<longleftrightarrow>
     T' = T\<lparr>status := status T', closed_date := closed_date T',
            can_be_deleted := can_be_deleted T', last_modified := last_modified T'\<rparr>
     \<and> (status T' = status T \<and> closed_date T' = closed_date T
          \<or> status T = STA_ACTIVE \<and> status T' = st \<and> closed_date T' = d)"

definition close_step :: "string \<Rightarrow> date \<Rightarrow> world \<Rightarrow> world \<Rightarrow> bool" where
  "close_step st d S S' \<longleftrightarrow> (\<forall>u. rel_option (task_close st d) (tasks S u) (tasks S' u))"

text \<open>
  Every loaded task that the step has closed has no child left that was active before.
\<close>

definition closed_down :: "string \<Rightarrow> date \<Rightarrow> world \<Rightarrow> world \<Rightarrow> bool" where
  "closed_down st d S S' \<longleftrightarrow>
     (\<forall>u U c C. tasks S u = Some U \<and> loaded U \<and> status U = STA_ACTIVE
         \<and> status_of S' u \<noteq> Some STA_ACTIVE
         \<and> c \<in> set (children U) \<and> tasks S c = Some C \<and> status C = STA_ACTIVE
       \<longrightarrow> closed_as st d S' c)"

definition closing :: "string \<Rightarrow> date \<Rightarrow> world \<Rightarrow> world \<Rightarrow> bool" where
  "closing st d S S' \<longleftrightarrow> close_step st d S S' \<and> closed_down st d S S'"





section \<open>Properties\<close>

subsection \<open>Replacing in strings\<close>

lemma replace_ne_length_le:
  "length new \<le> length old \<Longrightarrow> length (replace_ne old new t) \<le> length t"
proof (induction old new t rule: replace_ne.induct)
  case (1 old new)
  then show ?case by simp
next
  case (2 old new c cs)
  show ?case
  proof (cases "old \<noteq> [] \<and> prefix old (c # cs)")
    case True
    then have len: "length old \<le> Suc (length cs)"
      using prefix_length_le by fastforce
    from True 2 have "length (replace_ne old new (drop (length old - 1) cs)) \<le> length cs - (length old - 1)"
      by auto
    with True len 2(3) show ?thesis by auto
  next
    case False
    with 2 show ?thesis by auto
  qed
qed

lemma replace_ne_absent:
  "\<not> sublist old t \<Longrightarrow> replace_ne old new t = t"
proof (induction old new t rule: replace_ne.induct)
  case (1 old new)
  then show ?case by simp
next
  case (2 old new c cs)
  from 2(3) have np: "\<not> prefix old (c # cs)" and ns: "\<not> sublist old cs"
    by (auto simp: sublist_Cons_right)
  with 2 show ?case by simp
qed

lemma replace_ne_length_less:
  "length new < length old \<Longrightarrow> sublist old t \<Longrightarrow> length (replace_ne old new t) < length t"
proof (induction old new t rule: replace_ne.induct)
  case (1 old new)
  then show ?case by simp
next
  case (2 old new c cs)
  from 2(3) have ne: "old \<noteq> []" by auto
  show ?case
  proof (cases "prefix old (c # cs)")
    case True
    then have len: "length old \<le> Suc (length cs)"
      using prefix_length_le by fastforce
    have "length (replace_ne old new (drop (length old - 1) cs)) \<le> length cs - (length old - 1)"
      using replace_ne_length_le [of new old "drop (length old - 1) cs"] 2(3) by simp
    with True ne len 2(3) show ?thesis by auto
  next
    case False
    with 2(4) have "sublist old cs" by (auto simp: sublist_Cons_right)
    with False 2 show ?thesis by auto
  qed
qed

lemma replace_length_le:
  "length new \<le> length old \<Longrightarrow> length (replace old new t) \<le> length t"
proof (cases "old = []")
  case True
  assume "length new \<le> length old"
  with True have "new = []" by simp
  with True show ?thesis by (simp add: replace_def)
next
  case False
  assume "length new \<le> length old"
  with False show ?thesis by (simp add: replace_def replace_ne_length_le)
qed

lemma replace_absent:
  "old \<noteq> [] \<Longrightarrow> \<not> sublist old t \<Longrightarrow> replace old new t = t"
  by (simp add: replace_def replace_ne_absent)

lemma replace_length_less:
  "length new < length old \<Longrightarrow> sublist old t \<Longrightarrow> length (replace old new t) < length t"
  by (auto simp: replace_def replace_ne_length_less)

lemma replace_same_length:
  assumes "length new < length old" and "length (replace old new t) = length t"
  shows "replace old new t = t"
proof -
  from assms have "\<not> sublist old t"
    using replace_length_less [of new old t] by auto
  moreover from assms(1) have "old \<noteq> []" by auto
  ultimately show ?thesis by (rule_tac replace_absent)
qed

text \<open>
  Every replacement of \<^verbatim>\<open>_strip_tag\<close> keeps or shortens the text, and the fourth removes
  each marker the first three left: a text with a marker in it does not come back unchanged.
\<close>

lemma strip_tag_changes:
  assumes occ: "sublist (''@'' @ tagname) text"
  shows "strip_tag text tagname '''' \<noteq> text"
proof
  assume eq: "strip_tag text tagname '''' = text"
  define inl where "inl = (if startswith tagname ''@'' then drop 1 tagname else tagname)"
  define t1 where "t1 = replace (''@'' @ tagname @ [nl, nl]) '''' text"
  define t2 where "t2 = replace (''@'' @ tagname @ [nl]) '''' t1"
  define t3 where "t3 = replace (''@'' @ tagname @ '', '') '''' t2"
  define t4 where "t4 = replace (''@'' @ tagname) '''' t3"
  define t5 where "t5 = replace (tagname @ [nl, nl]) '''' t4"
  define t6 where "t6 = replace (tagname @ '', '') '''' t5"
  define t7 where "t7 = replace (tagname @ '','') inl t6"
  define t8 where "t8 = replace tagname inl t7"
  have st: "strip_tag text tagname '''' = t8"
    by (simp add: strip_tag_def Let_def t8_def t7_def t6_def t5_def t4_def t3_def t2_def t1_def inl_def)
  have inl_le: "length inl \<le> length tagname"
    by (simp add: inl_def)
  have l1: "length t1 \<le> length text" unfolding t1_def by (rule replace_length_le) simp
  have l2: "length t2 \<le> length t1" unfolding t2_def by (rule replace_length_le) simp
  have l3: "length t3 \<le> length t2" unfolding t3_def by (rule replace_length_le) simp
  have l4: "length t4 \<le> length t3" unfolding t4_def by (rule replace_length_le) simp
  have l5: "length t5 \<le> length t4" unfolding t5_def by (rule replace_length_le) simp
  have l6: "length t6 \<le> length t5" unfolding t6_def by (rule replace_length_le) simp
  have l7: "length t7 \<le> length t6" unfolding t7_def using inl_le by (intro replace_length_le) simp
  have l8: "length t8 \<le> length t7" unfolding t8_def using inl_le by (intro replace_length_le)
  from eq st have "length t8 = length text" by simp
  with l1 l2 l3 l4 l5 l6 l7 l8
  have e1: "length t1 = length text" and e2: "length t2 = length t1"
    and e3: "length t3 = length t2" and e4: "length t4 = length t3"
    by linarith+
  have "t1 = text" unfolding t1_def using e1 [unfolded t1_def] by (intro replace_same_length) simp_all
  moreover have "t2 = t1" unfolding t2_def using e2 [unfolded t2_def] by (intro replace_same_length) simp_all
  moreover have "t3 = t2" unfolding t3_def using e3 [unfolded t3_def] by (intro replace_same_length) simp_all
  ultimately have t3: "t3 = text" by simp
  have "length t4 < length t3"
    unfolding t4_def using occ t3 by (intro replace_length_less) simp_all
  with e4 show False by simp
qed

subsection \<open>Removing a tag the task does not have\<close>

text \<open>
  C10. When \<^verbatim>\<open>tagname\<close> is not in the tags of the task, \<^verbatim>\<open>remove_tag\<close> returns, leaves
  every list of tags and the tag registry as they were, sends no notification at all, and
  changes one thing: the content of the task becomes \<^verbatim>\<open>_strip_tag(content, tagname)\<close>. A
  content with the text \<^verbatim>\<open>@tagname\<close> in it is changed by that, though the tag was never added.
\<close>

theorem remove_tag_absent:
  assumes "tasks S t = Some T" and "tagname \<notin> set (tags_of S T)"
  shows "\<exists>S'. remove_tag (Suc n) t tagname S = Inr S'
           \<and> tag_lists S' = tag_lists S
           \<and> tag_registry S' = tag_registry S
           \<and> events S' = events S
           \<and> tasks S' = (tasks S)(t \<mapsto> T\<lparr>content := strip_tag (content T) tagname ''''\<rparr>)
           \<and> (sublist (''@'' @ tagname) (content T)
                \<longrightarrow> strip_tag (content T) tagname '''' \<noteq> content T)"
  using assms by (simp add: bindE_def upd_def strip_tag_changes)

theorem remove_tag_absent_witness:
  "tasks (text_world ''see @foo, bar'') ''t'' = Some (text_task ''see @foo, bar'')
   \<and> ''foo'' \<notin> set (tags_of (text_world ''see @foo, bar'') (text_task ''see @foo, bar''))
   \<and> sublist ''@foo'' (content (text_task ''see @foo, bar''))
   \<and> content_of (remove_tag (Suc 0) ''t'' ''foo'' (text_world ''see @foo, bar'')) ''t''
       = Some ''see bar''"
proof -
  have a: "tasks (text_world ''see @foo, bar'') ''t'' = Some (text_task ''see @foo, bar'')"
    by (simp add: text_world_def world_of_def)
  have b: "''foo'' \<notin> set (tags_of (text_world ''see @foo, bar'') (text_task ''see @foo, bar''))"
    by (simp add: text_world_def world_of_def tags_of_def)
  have c: "sublist ''@foo'' (content (text_task ''see @foo, bar''))"
    by (simp add: text_task_def sublist_Cons_right)
  have d: "strip_tag ''see @foo, bar'' ''foo'' '''' = ''see bar''"
    by (simp add: strip_tag_def replace_def startswith_def nl_def)
  from remove_tag_absent [OF a b, of 0] d
  have "content_of (remove_tag (Suc 0) ''t'' ''foo'' (text_world ''see @foo, bar'')) ''t''
          = Some ''see bar''"
    by (auto simp: content_of_def text_task_def)
  with a b c show ?thesis by simp
qed

subsection \<open>Adding a tag and removing it again\<close>

text \<open>
  C8. A task whose content is \<^verbatim>\<open>@@foofoo\<close> and which has no tag: \<^verbatim>\<open>add_tag("foo")\<close> makes
  the content \<^verbatim>\<open>@foo, @@foofoo\<close>, and \<^verbatim>\<open>remove_tag("foo")\<close> then leaves the content
  \<^verbatim>\<open>@foo\<close>, with no tag on the task: removing the marker inside \<^verbatim>\<open>@@foofoo\<close> joins the
  characters around it into a new marker, which no later replacement takes out.
\<close>

theorem add_remove_tag_leaves_marker:
  "content_of (add_tag 1 env0 ''t'' ''foo'' (text_world ''@@foofoo'')) ''t''
     = Some ''@foo, @@foofoo''
   \<and> content_of (bindE (add_tag 1 env0 ''t'' ''foo'' (text_world ''@@foofoo''))
        (remove_tag 1 ''t'' ''foo'')) ''t'' = Some ''@foo''
   \<and> tags_after (bindE (add_tag 1 env0 ''t'' ''foo'' (text_world ''@@foofoo''))
        (remove_tag 1 ''t'' ''foo'')) ''t'' = Some []"
  by (simp add: content_of_def tags_after_def bindE_def add_tag_def text_world_def world_of_def
      text_task_def init_task_def tags_of_def tag_touch_def notify_def sync_def upd_def env0_def
      html_escape_def replace_def startswith_def strip_tag_def nl_def tag_removed_def Let_def)

subsection \<open>Excerpts\<close>

text \<open>
  C6. A task whose content is the five lines \<^verbatim>\<open>one\<close> to \<^verbatim>\<open>five\<close>. With \<^verbatim>\<open>lines=5\<close>
  the excerpt is the whole content and with \<^verbatim>\<open>lines=2\<close> it is the first two lines. With
  \<^verbatim>\<open>lines=0\<close>, which is the default, the slice \<^verbatim>\<open>txt[:lines]\<close> keeps no line: the excerpt
  is empty, whether \<^verbatim>\<open>char\<close> is 0 or 10, where the docstring of \<^verbatim>\<open>get_excerpt\<close> promises
  the whole content and its first ten characters.
\<close>

theorem get_excerpt_zero_lines_empty:
  "get_excerpt (text_world five_lines) (text_task five_lines) 0 0 False True = ''''
   \<and> get_excerpt (text_world five_lines) (text_task five_lines) 0 10 False True = ''''
   \<and> get_excerpt (text_world five_lines) (text_task five_lines) 5 0 False True = five_lines
   \<and> get_excerpt (text_world five_lines) (text_task five_lines) 2 0 False True
       = ''one'' @ [nl] @ ''two''"
  by (simp add: get_excerpt_def py_take_def Let_def text_task_def five_lines_def strip_def
      xml_escape_def replace_def isspace_def is_linebreak_def sub_subtasks_def
      sub_subtask_line_def nl_def)

subsection \<open>The next occurrence\<close>

lemma advance_while_complete:
  "advances adv k cur = Some r \<Longrightarrow> \<not> again r
   \<Longrightarrow> (\<forall>j<k. \<exists>d'. advances adv j cur = Some d' \<and> again d')
   \<Longrightarrow> advance_while adv again cur = Some (Inr r)"
proof (induction k arbitrary: cur)
  case 0
  then show ?case by (simp add: advance_while.simps)
next
  case (Suc k)
  from Suc.prems(3) have ag: "again cur" by fastforce
  from Suc.prems(1) obtain nd where nd: "adv cur = Some nd" and r: "advances adv k nd = Some r"
    by (auto split: option.splits)
  have "\<forall>j<k. \<exists>d'. advances adv j nd = Some d' \<and> again d'"
  proof (intro allI impI)
    fix j assume "j < k"
    with Suc.prems(3) have "\<exists>d'. advances adv (Suc j) cur = Some d' \<and> again d'" by blast
    with nd show "\<exists>d'. advances adv j nd = Some d' \<and> again d'" by simp
  qed
  with Suc.IH [OF r Suc.prems(2)] have "advance_while adv again nd = Some (Inr r)" by simp
  with ag nd show ?case by (subst advance_while.simps) simp
qed

lemma advance_while_sound:
  assumes "advance_while adv again cur = Some res"
  shows "\<forall>r. res = Inr r \<longrightarrow> first_advance adv again cur r"
proof (rule advance_while.raw_induct
    [where P = "\<lambda>adv again cur res. \<forall>r. res = Inr r \<longrightarrow> first_advance adv again cur r", OF _ assms])
  fix aw :: "(date \<Rightarrow> date option) \<Rightarrow> (date \<Rightarrow> bool) \<Rightarrow> date \<Rightarrow> (error + date) option"
  fix adv again cur res
  assume IH: "\<And>adv again cur res. aw adv again cur = Some res
                \<Longrightarrow> \<forall>r. res = Inr r \<longrightarrow> first_advance adv again cur r"
  assume body: "(if again cur
      then (case adv cur of None \<Rightarrow> Some (Inl ValueError) | Some nd \<Rightarrow> aw adv again nd)
      else Some (Inr cur)) = Some res"
  show "\<forall>r. res = Inr r \<longrightarrow> first_advance adv again cur r"
  proof (intro allI impI)
    fix r assume res: "res = Inr r"
    show "first_advance adv again cur r"
    proof (cases "again cur")
      case False
      with body res have "r = cur" by simp
      with False show ?thesis
        unfolding first_advance_def by (intro exI [of _ 0]) simp
    next
      case True
      with body res obtain nd where nd: "adv cur = Some nd" and rec: "aw adv again nd = Some res"
        by (auto split: option.splits)
      from IH [OF rec] res obtain k where k: "advances adv k nd = Some r" "\<not> again r"
        "\<forall>j<k. \<exists>d'. advances adv j nd = Some d' \<and> again d'"
        unfolding first_advance_def by blast
      have "\<forall>j<Suc k. \<exists>d'. advances adv j cur = Some d' \<and> again d'"
      proof (intro allI impI)
        fix j assume j: "j < Suc k"
        show "\<exists>d'. advances adv j cur = Some d' \<and> again d'"
        proof (cases j)
          case 0
          with True show ?thesis by simp
        next
          case (Suc i)
          with j k(3) nd show ?thesis by simp
        qed
      qed
      with k(1,2) nd show ?thesis
        unfolding first_advance_def by (intro exI [of _ "Suc k"]) simp
    qed
  qed
qed

lemma advance_while_iff:
  "advance_while adv again cur = Some (Inr r) \<longleftrightarrow> first_advance adv again cur r"
  using advance_while_sound [of adv again cur "Inr r"] advance_while_complete [of adv _ cur r again]
  unfolding first_advance_def by blast

lemma first_advanced_step:
  "first_advanced adv again due r \<longleftrightarrow> (\<exists>nd. adv due = Some nd \<and> first_advance adv again nd r)"
  unfolding first_advanced_def first_advance_def
  by (cases "adv due") auto

lemma first_try_iff:
  "(case adv due of None \<Rightarrow> Some (Inl ValueError) | Some nd \<Rightarrow> advance_while adv again nd) = Some (Inr r)
   \<longleftrightarrow> first_advanced adv again due r"
  by (cases "adv due") (simp_all add: first_advanced_step advance_while_iff)

text \<open>
  C5. When today is on or before the due date, \<^verbatim>\<open>get_next_occurrence\<close> returns \<open>r\<close> exactly
  when \<open>r\<close> is the first date, among those reached from the due date by advancing once or
  more, that is strictly after the due date (the loop goes on while the date is \<open>\<le>\<close> the due
  date). When today is after the due date, it returns \<open>r\<close> exactly when \<open>r\<close> is the first such
  date that is not before today (the loop goes on while the date is \<open><\<close> today).
\<close>

theorem get_next_occurrence_first_advanced:
  "(date_le (Concrete (today E)) (due_date T) \<longrightarrow>
      (get_next_occurrence E T = Some (Inr r))
        = first_advanced (\<lambda>d. parse_from_date E d (recurring_term T) False)
            (\<lambda>d. date_le d (due_date T)) (due_date T) r)
   \<and> (date_lt (due_date T) (Concrete (today E)) \<longrightarrow>
      (get_next_occurrence E T = Some (Inr r))
        = first_advanced (\<lambda>d. parse_from_date E d (recurring_term T) False)
            (\<lambda>d. date_lt d (Concrete (today E))) (due_date T) r)"
proof (intro conjI impI)
  assume "date_le (Concrete (today E)) (due_date T)"
  then show "(get_next_occurrence E T = Some (Inr r))
        = first_advanced (\<lambda>d. parse_from_date E d (recurring_term T) False)
            (\<lambda>d. date_le d (due_date T)) (due_date T) r"
    using first_try_iff [where adv = "\<lambda>d. parse_from_date E d (recurring_term T) False"
        and due = "due_date T" and again = "\<lambda>d. date_le d (due_date T)" and r = r]
    by (simp add: get_next_occurrence_def Let_def)
next
  assume lt: "date_lt (due_date T) (Concrete (today E))"
  then have "\<not> date_le (Concrete (today E)) (due_date T)"
    by (simp add: date_le_def)
  with lt show "(get_next_occurrence E T = Some (Inr r))
        = first_advanced (\<lambda>d. parse_from_date E d (recurring_term T) False)
            (\<lambda>d. date_lt d (Concrete (today E))) (due_date T) r"
    using first_try_iff [where adv = "\<lambda>d. parse_from_date E d (recurring_term T) False"
        and due = "due_date T" and again = "\<lambda>d. date_lt d (Concrete (today E))" and r = r]
    by (simp add: get_next_occurrence_def Let_def)
qed

theorem get_next_occurrence_first_advanced_witness:
  "date_le (Concrete (today env0)) (due_date (recurring_task (Concrete 10)))
   \<and> get_next_occurrence env0 (recurring_task (Concrete 10)) = Some (Inr (Concrete 11))
   \<and> date_lt (due_date (recurring_task (Concrete 7))) (Concrete (today env0))
   \<and> get_next_occurrence env0 (recurring_task (Concrete 7)) = Some (Inr (Concrete 10))"
proof -
  let ?adv = "\<lambda>d. parse_from_date env0 d (recurring_term (recurring_task (Concrete 10))) False"
  have a: "date_le (Concrete (today env0)) (due_date (recurring_task (Concrete 10)))"
    by (simp add: date_le_def env0_def recurring_task_def)
  have "first_advanced ?adv (\<lambda>d. date_le d (due_date (recurring_task (Concrete 10))))
          (due_date (recurring_task (Concrete 10))) (Concrete 11)"
    unfolding first_advanced_def
    by (intro exI [of _ 0]) (simp add: env0_def recurring_task_def date_le_def)
  with a get_next_occurrence_first_advanced [of env0 "recurring_task (Concrete 10)" "Concrete 11"]
  have b: "get_next_occurrence env0 (recurring_task (Concrete 10)) = Some (Inr (Concrete 11))"
    by blast
  let ?adv' = "\<lambda>d. parse_from_date env0 d (recurring_term (recurring_task (Concrete 7))) False"
  have c: "date_lt (due_date (recurring_task (Concrete 7))) (Concrete (today env0))"
    by (simp add: env0_def recurring_task_def)
  have adv: "\<And>x. ?adv' (Concrete x) = Some (Concrete (x + 1))"
    by (simp add: env0_def recurring_task_def)
  have "first_advanced ?adv' (\<lambda>d. date_lt d (Concrete (today env0)))
          (due_date (recurring_task (Concrete 7))) (Concrete 10)"
    unfolding first_advanced_def
  proof (intro exI [of _ 2] conjI allI impI)
    show "advances ?adv' (Suc 2) (due_date (recurring_task (Concrete 7))) = Some (Concrete 10)"
      by (simp add: env0_def recurring_task_def numeral_2_eq_2)
    show "\<not> date_lt (Concrete 10) (Concrete (today env0))"
      by (simp add: env0_def)
    fix j :: nat assume "j < 2"
    then have "j = 0 \<or> j = 1" by auto
    then show "\<exists>d'. advances ?adv' (Suc j) (due_date (recurring_task (Concrete 7))) = Some d'
                 \<and> date_lt d' (Concrete (today env0))"
      by (auto simp: env0_def recurring_task_def)
  qed
  with c get_next_occurrence_first_advanced [of env0 "recurring_task (Concrete 7)" "Concrete 10"]
  have d: "get_next_occurrence env0 (recurring_task (Concrete 7)) = Some (Inr (Concrete 10))"
    by blast
  from a b c d show ?thesis by blast
qed

subsection \<open>Results and loops\<close>

lemma bindE_Inr_iff:
  "bindE r f = Inr y \<longleftrightarrow> (\<exists>v. r = Inr v \<and> f v = Inr y)"
  by (cases r) (simp_all add: bindE_def)

lemma bindE_simps [simp]:
  "bindE (Inr v) f = f v" "bindE (Inl e) f = Inl e"
  by (simp_all add: bindE_def)

lemma foldE_rel_on:
  assumes refl: "\<And>s. R s s"
    and trans: "\<And>s s' s''. R s s' \<Longrightarrow> R s' s'' \<Longrightarrow> R s s''"
    and inv: "\<And>s s'. I s \<Longrightarrow> R s s' \<Longrightarrow> I s'"
    and step: "\<And>x s s'. x \<in> A \<Longrightarrow> I s \<Longrightarrow> f x s = Inr s' \<Longrightarrow> R s s'"
  shows "set xs \<subseteq> A \<Longrightarrow> I s \<Longrightarrow> foldE f xs s = Inr s' \<Longrightarrow> R s s'"
proof (induction xs arbitrary: s)
  case Nil
  then show ?case by (simp add: refl)
next
  case (Cons x xs)
  from Cons.prems(3) obtain s1 where s1: "f x s = Inr s1" and rest: "foldE f xs s1 = Inr s'"
    by (auto simp: bindE_Inr_iff)
  from Cons.prems(1) have xA: "x \<in> A" and sub: "set xs \<subseteq> A" by auto
  from step [OF xA Cons.prems(2) s1] have r1: "R s s1" .
  with Cons.prems(2) have "I s1" by (rule_tac inv)
  from Cons.IH [OF sub this rest] have "R s1 s'" .
  with r1 show ?case by (rule trans)
qed

lemma foldE_rel:
  assumes refl: "\<And>s. R s s"
    and trans: "\<And>s s' s''. R s s' \<Longrightarrow> R s' s'' \<Longrightarrow> R s s''"
    and inv: "\<And>s s'. I s \<Longrightarrow> R s s' \<Longrightarrow> I s'"
    and step: "\<And>x s s'. x \<in> set xs \<Longrightarrow> I s \<Longrightarrow> f x s = Inr s' \<Longrightarrow> R s s'"
  shows "I s \<Longrightarrow> foldE f xs s = Inr s' \<Longrightarrow> R s s'"
  by (rule foldE_rel_on [where R = R and I = I and A = "set xs", OF refl trans inv step]) auto

lemma foldE_stable:
  assumes stable: "\<And>y s s'. I s \<Longrightarrow> f y s = Inr s' \<Longrightarrow> Q s \<Longrightarrow> Q s'"
    and inv: "\<And>y s s'. I s \<Longrightarrow> f y s = Inr s' \<Longrightarrow> I s'"
  shows "I s \<Longrightarrow> Q s \<Longrightarrow> foldE f xs s = Inr s' \<Longrightarrow> Q s' \<and> I s'"
proof (induction xs arbitrary: s)
  case Nil
  then show ?case by simp
next
  case (Cons x xs)
  from Cons.prems(3) obtain s1 where s1: "f x s = Inr s1" and rest: "foldE f xs s1 = Inr s'"
    by (auto simp: bindE_Inr_iff)
  from inv [OF Cons.prems(1) s1] stable [OF Cons.prems(1) s1 Cons.prems(2)] rest
  show ?case by (rule Cons.IH)
qed

lemma foldE_post:
  assumes est: "\<And>x s s'. I s \<Longrightarrow> f x s = Inr s' \<Longrightarrow> Q x s'"
    and stable: "\<And>x y s s'. I s \<Longrightarrow> f y s = Inr s' \<Longrightarrow> Q x s \<Longrightarrow> Q x s'"
    and inv: "\<And>y s s'. I s \<Longrightarrow> f y s = Inr s' \<Longrightarrow> I s'"
  shows "I s \<Longrightarrow> foldE f xs s = Inr s' \<Longrightarrow> \<forall>x\<in>set xs. Q x s'"
proof (induction xs arbitrary: s)
  case Nil
  then show ?case by simp
next
  case (Cons x xs)
  from Cons.prems(2) obtain s1 where s1: "f x s = Inr s1" and rest: "foldE f xs s1 = Inr s'"
    by (auto simp: bindE_Inr_iff)
  have I1: "I s1" by (rule inv [OF Cons.prems(1) s1])
  have q: "Q x s1" by (rule est [OF Cons.prems(1) s1])
  have tail: "\<forall>y\<in>set xs. Q y s'" by (rule Cons.IH [OF I1 rest])
  have "Q x s' \<and> I s'"
    by (rule foldE_stable [where I = I and Q = "Q x" and f = f, OF _ _ I1 q rest])
      (auto intro: stable inv)
  with tail show ?case by simp
qed

subsection \<open>Steps of \<^verbatim>\<open>set_due_date\<close>\<close>

lemma tasks_upd:
  "tasks (upd t f S) u = (if u = t then map_option f (tasks S t) else tasks S u)"
  by (simp add: upd_def split: option.splits)

lemma upd_fields [simp]:
  "tag_lists (upd t f S) = tag_lists S" "tag_registry (upd t f S) = tag_registry S"
  "next_ref (upd t f S) = next_ref S" "fresh_ids (upd t f S) = fresh_ids S"
  "events (upd t f S) = events S"
  by (simp_all add: upd_def split: option.splits)

lemma tasks_sync:
  "tasks (snd (sync E t S)) u =
     (if u = t
      then map_option (\<lambda>T. if sync_disabled T then T else T\<lparr>last_modified := now E\<rparr>) (tasks S t)
      else tasks S u)"
  by (simp add: sync_def Let_def notify_def tasks_upd split: option.splits)

lemma sync_fields [simp]:
  "tag_lists (snd (sync E t S)) = tag_lists S" "tag_registry (snd (sync E t S)) = tag_registry S"
  "next_ref (snd (sync E t S)) = next_ref S" "fresh_ids (snd (sync E t S)) = fresh_ids S"
  by (simp_all add: sync_def Let_def notify_def split: option.splits)

lemma task_step_refl: "task_step d T T"
  by (simp add: task_step_def)

lemma task_step_trans: "task_step d T T' \<Longrightarrow> task_step d T' T'' \<Longrightarrow> task_step d T T''"
  unfolding task_step_def
  by (cases T, cases T', cases T'') auto

lemma task_step_same:
  "task_step d T T' \<Longrightarrow>
     parents T' = parents T \<and> children T' = children T \<and> status T' = status T
     \<and> closed_date T' = closed_date T \<and> loaded T' = loaded T
     \<and> sync_disabled T' = sync_disabled T \<and> can_be_deleted T' = can_be_deleted T
     \<and> recurring T' = recurring T \<and> recurring_term T' = recurring_term T
     \<and> tags T' = tags T \<and> content T' = content T \<and> title T' = title T"
  by (cases T, cases T') (simp add: task_step_def)

lemma dd_step_refl: "dd_step d S S"
  by (simp add: dd_step_def option.rel_refl task_step_refl)

lemma dd_step_trans: "dd_step d S S' \<Longrightarrow> dd_step d S' S'' \<Longrightarrow> dd_step d S S''"
  unfolding dd_step_def
proof (intro conjI allI)
  fix u
  assume a: "(\<forall>u. rel_option (task_step d) (tasks S u) (tasks S' u)) \<and>
    tag_lists S' = tag_lists S \<and> tag_registry S' = tag_registry S \<and>
    next_ref S' = next_ref S \<and> fresh_ids S' = fresh_ids S"
    and b: "(\<forall>u. rel_option (task_step d) (tasks S' u) (tasks S'' u)) \<and>
    tag_lists S'' = tag_lists S' \<and> tag_registry S'' = tag_registry S' \<and>
    next_ref S'' = next_ref S' \<and> fresh_ids S'' = fresh_ids S'"
  from a b have "rel_option (task_step d) (tasks S u) (tasks S' u)"
    "rel_option (task_step d) (tasks S' u) (tasks S'' u)" by auto
  then show "rel_option (task_step d) (tasks S u) (tasks S'' u)"
    by (cases "tasks S u"; cases "tasks S' u"; cases "tasks S'' u") (auto intro: task_step_trans)
qed auto

lemma dd_step_sync: "dd_step d S (snd (sync E t S))"
  unfolding dd_step_def
  by (auto simp: tasks_sync task_step_def option.rel_map intro!: option.rel_refl)

lemma dd_step_upd_due:
  "tasks S p = Some P \<Longrightarrow> \<not> is_fuzzy (due_date P) \<Longrightarrow> dd_step d S (upd p (\<lambda>T. T\<lparr>due_date := d\<rparr>) S)"
  unfolding dd_step_def
  by (auto simp: tasks_upd task_step_def option.rel_map intro!: option.rel_refl)

lemma dd_step_set_start_date:
  "tasks S c = Some C \<Longrightarrow> \<not> is_fuzzy (start_date C) \<Longrightarrow> date_lt d (start_date C)
   \<Longrightarrow> dd_step d S (set_start_date E c d S)"
  unfolding set_start_date_def
  by (rule dd_step_trans [OF _ dd_step_sync])
     (auto simp: dd_step_def tasks_upd task_step_def option.rel_map intro!: option.rel_refl)

lemma dd_step_recursive_sync:
  "recursive_sync n E t S = Inr S' \<Longrightarrow> dd_step d S S'"
proof (induction n arbitrary: t S S')
  case 0
  then show ?case by simp
next
  case (Suc n)
  from Suc.prems obtain T where T: "tasks S t = Some T"
    and f: "foldE (recursive_sync n E) (children T) (snd (sync E t S)) = Inr S'"
    by (auto split: option.splits)
  have "dd_step d (snd (sync E t S)) S'"
    by (rule foldE_rel [where R = "dd_step d" and I = "\<lambda>_. True", OF _ _ _ _ _ f])
       (auto intro: dd_step_refl dd_step_trans Suc.IH)
  with dd_step_sync show ?case by (rule dd_step_trans)
qed

lemma date_lt_not_fuzzy: "date_lt a b \<Longrightarrow> \<not> is_fuzzy a"
  by (cases a) auto

subsection \<open>The lists of defined parents and children\<close>

lemma fold_add_defined:
  "foldE (add_defined rec S) xs found = Inr res \<Longrightarrow>
     set res = set found \<union> {a. \<exists>x\<in>set xs. \<exists>X. tasks S x = Some X
                  \<and> (if is_fuzzy (due_date X) then \<exists>l. rec x = Inr l \<and> a \<in> set l else a = x)}
     \<and> (\<forall>x\<in>set xs. \<exists>X. tasks S x = Some X \<and> (is_fuzzy (due_date X) \<longrightarrow> (\<exists>l. rec x = Inr l)))"
proof (induction xs arbitrary: found)
  case Nil
  then show ?case by simp
next
  case (Cons x xs)
  from Cons.prems obtain f1 where f1: "add_defined rec S x found = Inr f1"
    and rest: "foldE (add_defined rec S) xs f1 = Inr res"
    by (auto simp: bindE_Inr_iff)
  from f1 obtain X where X: "tasks S x = Some X"
    by (auto simp: add_defined_def split: option.splits)
  note IH = Cons.IH [OF rest]
  show ?case
  proof (cases "is_fuzzy (due_date X)")
    case True
    with f1 X obtain l where l: "rec x = Inr l" and f1': "f1 = found @ l"
      by (auto simp: add_defined_def bindE_Inr_iff)
    with IH X True show ?thesis by auto
  next
    case False
    with f1 X have "f1 = found @ [x]" by (auto simp: add_defined_def)
    with IH X False show ?thesis by auto
  qed
qed

lemma get_defined_list_iff:
  "get_defined_list nb n S t = Inr l \<Longrightarrow> a \<in> set l \<longleftrightarrow> defined_via nb S t a"
proof (induction n arbitrary: t l a)
  case 0
  then show ?case by simp
next
  case (Suc n)
  from Suc.prems obtain T where T: "tasks S t = Some T"
    and f: "foldE (add_defined (get_defined_list nb n S) S) (nb T) [] = Inr l"
    by (auto split: option.splits)
  note ch = fold_add_defined [OF f]
  show ?case
  proof
    assume "a \<in> set l"
    with ch obtain x X where x: "x \<in> set (nb T)" "tasks S x = Some X"
      and c: "if is_fuzzy (due_date X) then \<exists>l'. get_defined_list nb n S x = Inr l' \<and> a \<in> set l' else a = x"
      by auto
    show "defined_via nb S t a"
    proof (cases "is_fuzzy (due_date X)")
      case True
      with c obtain l' where "get_defined_list nb n S x = Inr l'" "a \<in> set l'" by auto
      with Suc.IH have "defined_via nb S x a" by blast
      with T x True show ?thesis by (rule_tac defined_via.through)
    next
      case False
      with c T x show ?thesis by (auto intro: defined_via.direct)
    qed
  next
    assume "defined_via nb S t a"
    then show "a \<in> set l"
    proof (cases rule: defined_via.cases)
      case (direct T' X)
      with T ch show ?thesis by auto
    next
      case (through T' x X)
      with T ch obtain l' where l': "get_defined_list nb n S x = Inr l'" by fastforce
      with Suc.IH through(5) have "a \<in> set l'" by blast
      with ch through T l' show ?thesis by auto
    qed
  qed
qed

lemma defined_via_defined:
  "defined_via nb S t a \<Longrightarrow> \<exists>A. tasks S a = Some A \<and> \<not> is_fuzzy (due_date A)"
  by (induction rule: defined_via.induct) auto

lemma same_skel_refl: "same_skel S S"
  by (simp add: same_skel_def option.rel_refl)


lemma same_skelD:
  "same_skel S S' \<Longrightarrow> tasks S u = Some T \<Longrightarrow>
     \<exists>T'. tasks S' u = Some T' \<and> parents T' = parents T \<and> children T' = children T
        \<and> is_fuzzy (due_date T') = is_fuzzy (due_date T)"
  unfolding same_skel_def
  by (drule spec [of _ u]) (cases "tasks S' u", auto)

lemma same_skel_None:
  "same_skel S S' \<Longrightarrow> tasks S u = None \<Longrightarrow> tasks S' u = None"
  unfolding same_skel_def
  by (drule spec [of _ u]) (cases "tasks S' u", auto)

lemma dd_step_skel:
  assumes "\<not> is_fuzzy d" and "dd_step d S S'"
  shows "same_skel S S'"
  unfolding same_skel_def
proof
  fix u
  from assms(2) have "rel_option (task_step d) (tasks S u) (tasks S' u)"
    by (simp add: dd_step_def)
  then show "rel_option (\<lambda>T T'. parents T' = parents T \<and> children T' = children T
                          \<and> is_fuzzy (due_date T') = is_fuzzy (due_date T)) (tasks S u) (tasks S' u)"
  proof (cases rule: option.rel_cases)
    case None
    then show ?thesis by simp
  next
    case (Some T T')
    from task_step_same [OF Some(3)] have "parents T' = parents T" "children T' = children T"
      by simp_all
    moreover from Some(3) assms(1) have "is_fuzzy (due_date T') = is_fuzzy (due_date T)"
      unfolding task_step_def by auto
    ultimately show ?thesis using Some by simp
  qed
qed

lemma foldE_cong_all:
  "(\<And>x s. f x s = g x s) \<Longrightarrow> foldE f xs s = foldE g xs s"
proof (induction xs arbitrary: s)
  case Nil
  then show ?case by simp
next
  case (Cons x xs)
  have "foldE f xs = foldE g xs"
  proof
    fix s' show "foldE f xs s' = foldE g xs s'" by (rule Cons.IH) (rule Cons.prems)
  qed
  with Cons.prems show ?case by simp
qed

lemma add_defined_skel:
  assumes "same_skel S S'" and "\<And>x. rec x = rec' x"
  shows "add_defined rec S x found = add_defined rec' S' x found"
proof (cases "tasks S x")
  case None
  with assms(1) have "tasks S' x = None" by (rule_tac same_skel_None)
  with None show ?thesis by (simp add: add_defined_def)
next
  case (Some X)
  from same_skelD [OF assms(1) Some] obtain X' where "tasks S' x = Some X'"
    "is_fuzzy (due_date X') = is_fuzzy (due_date X)" by auto
  with Some assms(2) show ?thesis by (simp add: add_defined_def)
qed

lemma get_defined_list_skel:
  assumes sk: "same_skel S S'" and nb: "nb = parents \<or> nb = children"
  shows "get_defined_list nb n S t = get_defined_list nb n S' t"
proof (induction n arbitrary: t)
  case 0
  then show ?case by simp
next
  case (Suc n)
  show ?case
  proof (cases "tasks S t")
    case None
    with sk have "tasks S' t = None" by (rule_tac same_skel_None)
    with None show ?thesis by simp
  next
    case (Some T)
    from same_skelD [OF sk Some] nb obtain T' where T': "tasks S' t = Some T'" "nb T' = nb T"
      by auto
    have "foldE (add_defined (get_defined_list nb n S) S) (nb T) []
        = foldE (add_defined (get_defined_list nb n S') S') (nb T) []"
      by (rule foldE_cong_all) (rule add_defined_skel [OF sk], rule Suc.IH)
    with Some T' show ?thesis by simp
  qed
qed


subsection \<open>What \<^verbatim>\<open>set_due_date\<close> changes\<close>

lemma task_stepD:
  "task_step d T T' \<Longrightarrow>
     (due_date T' = due_date T \<or> \<not> is_fuzzy (due_date T) \<and> due_date T' = d)
     \<and> (start_date T' = start_date T
          \<or> \<not> is_fuzzy (start_date T) \<and> date_lt d (start_date T) \<and> start_date T' = d)"
  by (simp add: task_step_def)

lemma dd_stepD:
  "dd_step d S S' \<Longrightarrow> tasks S u = Some T \<Longrightarrow> \<exists>T'. tasks S' u = Some T' \<and> task_step d T T'"
  unfolding dd_step_def
  by (elim conjE, drule spec [of _ u]) (cases "tasks S' u", auto)

lemma pull_parent_step:
  assumes IH: "\<And>t S S'. rec t d S = Inr S' \<Longrightarrow> dd_step d (upd t (\<lambda>T. T\<lparr>due_date := d\<rparr>) S) S'"
    and r: "pull_parent rec d p S = Inr S'"
  shows "dd_step d S S'"
proof -
  from r obtain P where P: "tasks S p = Some P"
    by (auto simp: pull_parent_def split: option.splits)
  show ?thesis
  proof (cases "date_lt (due_date P) d")
    case True
    with r P have "rec p d S = Inr S'" by (simp add: pull_parent_def)
    from IH [OF this] dd_step_upd_due [OF P date_lt_not_fuzzy [OF True], of d]
    show ?thesis by (rule_tac dd_step_trans)
  next
    case False
    with r P show ?thesis by (simp add: pull_parent_def dd_step_refl)
  qed
qed

lemma pull_child_step:
  assumes IH: "\<And>t S S'. rec t d S = Inr S' \<Longrightarrow> dd_step d (upd t (\<lambda>T. T\<lparr>due_date := d\<rparr>) S) S'"
    and r: "pull_child E rec d c S = Inr S'"
    and nf: "\<exists>C. tasks S c = Some C \<and> \<not> is_fuzzy (due_date C)"
  shows "dd_step d S S'"
proof -
  from nf obtain C where C: "tasks S c = Some C" and nfC: "\<not> is_fuzzy (due_date C)" by auto
  from r C obtain S1 where S1: "(if date_lt d (due_date C) then rec c d S else Inr S) = Inr S1"
    and rest: "(case tasks S1 c of None \<Rightarrow> Inl MissingTask
                | Some sub' \<Rightarrow> if \<not> is_fuzzy (start_date sub') \<and> date_lt d (start_date sub')
                               then Inr (set_start_date E c d S1) else Inr S1) = Inr S'"
    by (auto simp: pull_child_def bindE_Inr_iff)
  have a: "dd_step d S S1"
  proof (cases "date_lt d (due_date C)")
    case True
    with S1 have "rec c d S = Inr S1" by simp
    from IH [OF this] dd_step_upd_due [OF C nfC, of d] show ?thesis by (rule_tac dd_step_trans)
  next
    case False
    with S1 show ?thesis by (simp add: dd_step_refl)
  qed
  from rest obtain C1 where C1: "tasks S1 c = Some C1" by (auto split: option.splits)
  have "dd_step d S1 S'"
  proof (cases "\<not> is_fuzzy (start_date C1) \<and> date_lt d (start_date C1)")
    case True
    with rest C1 have "S' = set_start_date E c d S1" by simp
    with True C1 show ?thesis by (simp add: dd_step_set_start_date)
  next
    case False
    with rest C1 show ?thesis by (auto simp: dd_step_refl)
  qed
  with a show ?thesis by (rule dd_step_trans)
qed

subsection \<open>The frame of \<^verbatim>\<open>set_due_date\<close>\<close>

lemma dd_step_keeps_defined:
  assumes "\<not> is_fuzzy d" and "dd_step d S S'"
    and "\<forall>c\<in>A. \<exists>C. tasks S c = Some C \<and> \<not> is_fuzzy (due_date C)"
  shows "\<forall>c\<in>A. \<exists>C. tasks S' c = Some C \<and> \<not> is_fuzzy (due_date C)"
proof
  fix c assume "c \<in> A"
  with assms(3) obtain C where C: "tasks S c = Some C" "\<not> is_fuzzy (due_date C)" by auto
  from dd_stepD [OF assms(2) C(1)] obtain C' where "tasks S' c = Some C'" "task_step d C C'" by auto
  with C(2) assms(1) show "\<exists>C. tasks S' c = Some C \<and> \<not> is_fuzzy (due_date C)"
    by (auto dest: task_stepD)
qed

lemma set_due_date_unfold:
  assumes "set_due_date (Suc n) E t d S = Inr S'"
  obtains T S3 where "tasks S t = Some T"
    and "if is_fuzzy d then S3 = upd t (\<lambda>T. T\<lparr>due_date := d\<rparr>) S
         else \<exists>ps S2 cs.
           get_defined_parent_list n (upd t (\<lambda>T. T\<lparr>due_date := d\<rparr>) S) t = Inr ps
           \<and> foldE (pull_parent (set_due_date n E) d) ps (upd t (\<lambda>T. T\<lparr>due_date := d\<rparr>) S) = Inr S2
           \<and> get_defined_child_list n S2 t = Inr cs
           \<and> foldE (pull_child E (set_due_date n E) d) cs S2 = Inr S3"
    and "if due_date T \<noteq> d then recursive_sync n E t S3 = Inr S' else S' = S3"
proof -
  from assms obtain T where T: "tasks S t = Some T" by (auto split: option.splits)
  from assms T obtain S3 where
    a: "(if \<not> is_fuzzy d
         then bindE (get_defined_parent_list n (upd t (\<lambda>T. T\<lparr>due_date := d\<rparr>) S) t) (\<lambda>ps.
              bindE (foldE (pull_parent (set_due_date n E) d) ps (upd t (\<lambda>T. T\<lparr>due_date := d\<rparr>) S)) (\<lambda>S2.
              bindE (get_defined_child_list n S2 t) (\<lambda>cs.
              foldE (pull_child E (set_due_date n E) d) cs S2)))
         else Inr (upd t (\<lambda>T. T\<lparr>due_date := d\<rparr>) S)) = Inr S3"
    and b: "(if due_date T \<noteq> d then recursive_sync n E t S3 else Inr S3) = Inr S'"
    by (auto simp: Let_def bindE_Inr_iff)
  show ?thesis
  proof (rule that [OF T, of S3])
    show "if is_fuzzy d then S3 = upd t (\<lambda>T. T\<lparr>due_date := d\<rparr>) S
         else \<exists>ps S2 cs.
           get_defined_parent_list n (upd t (\<lambda>T. T\<lparr>due_date := d\<rparr>) S) t = Inr ps
           \<and> foldE (pull_parent (set_due_date n E) d) ps (upd t (\<lambda>T. T\<lparr>due_date := d\<rparr>) S) = Inr S2
           \<and> get_defined_child_list n S2 t = Inr cs
           \<and> foldE (pull_child E (set_due_date n E) d) cs S2 = Inr S3"
      using a by (cases "is_fuzzy d") (auto simp: bindE_Inr_iff)
    show "if due_date T \<noteq> d then recursive_sync n E t S3 = Inr S' else S' = S3"
      using b by (cases "due_date T = d") auto
  qed
qed

lemma defined_child_list_defined:
  "get_defined_child_list n S t = Inr cs \<Longrightarrow> \<forall>c\<in>set cs. \<exists>C. tasks S c = Some C \<and> \<not> is_fuzzy (due_date C)"
  unfolding get_defined_child_list_def
  using get_defined_list_iff defined_via_defined by blast

lemma child_loop_step:
  assumes IH: "\<And>t S S'. set_due_date n E t d S = Inr S' \<Longrightarrow> dd_step d (upd t (\<lambda>T. T\<lparr>due_date := d\<rparr>) S) S'"
    and nf: "\<not> is_fuzzy d"
    and cs: "\<forall>c\<in>set cs. \<exists>C. tasks S c = Some C \<and> \<not> is_fuzzy (due_date C)"
    and f: "foldE (pull_child E (set_due_date n E) d) cs S = Inr S'"
  shows "dd_step d S S'"
proof (rule foldE_rel [where R = "dd_step d"
      and I = "\<lambda>S. \<forall>c\<in>set cs. \<exists>C. tasks S c = Some C \<and> \<not> is_fuzzy (due_date C)", OF _ _ _ _ cs f])
  show "\<And>s. dd_step d s s" by (rule dd_step_refl)
  show "\<And>s s' s''. dd_step d s s' \<Longrightarrow> dd_step d s' s'' \<Longrightarrow> dd_step d s s''" by (rule dd_step_trans)
  show "\<And>s s'. \<forall>c\<in>set cs. \<exists>C. tasks s c = Some C \<and> \<not> is_fuzzy (due_date C) \<Longrightarrow> dd_step d s s'
      \<Longrightarrow> \<forall>c\<in>set cs. \<exists>C. tasks s' c = Some C \<and> \<not> is_fuzzy (due_date C)"
    by (rule dd_step_keeps_defined [OF nf])
  show "\<And>x s s'. x \<in> set cs \<Longrightarrow> \<forall>c\<in>set cs. \<exists>C. tasks s c = Some C \<and> \<not> is_fuzzy (due_date C)
      \<Longrightarrow> pull_child E (set_due_date n E) d x s = Inr s' \<Longrightarrow> dd_step d s s'"
    by (rule pull_child_step [where rec = "set_due_date n E", OF IH]) auto
qed

lemma parent_loop_step:
  assumes IH: "\<And>t S S'. set_due_date n E t d S = Inr S' \<Longrightarrow> dd_step d (upd t (\<lambda>T. T\<lparr>due_date := d\<rparr>) S) S'"
    and f: "foldE (pull_parent (set_due_date n E) d) ps S = Inr S'"
  shows "dd_step d S S'"
proof (rule foldE_rel [where R = "dd_step d" and I = "\<lambda>S. True", OF _ _ _ _ _ f])
  show "\<And>s. dd_step d s s" by (rule dd_step_refl)
  show "\<And>s s' s''. dd_step d s s' \<Longrightarrow> dd_step d s' s'' \<Longrightarrow> dd_step d s s''" by (rule dd_step_trans)
  show "\<And>x s s'. pull_parent (set_due_date n E) d x s = Inr s' \<Longrightarrow> dd_step d s s'"
    by (rule pull_parent_step [where rec = "set_due_date n E", OF IH])
qed simp_all

lemma set_due_date_step:
  "set_due_date n E t d S = Inr S' \<Longrightarrow> dd_step d (upd t (\<lambda>T. T\<lparr>due_date := d\<rparr>) S) S'"
proof (induction n arbitrary: t S S')
  case 0
  then show ?case by simp
next
  case (Suc n)
  from Suc.prems obtain T S3 where T: "tasks S t = Some T"
    and mid: "if is_fuzzy d then S3 = upd t (\<lambda>T. T\<lparr>due_date := d\<rparr>) S
         else \<exists>ps S2 cs.
           get_defined_parent_list n (upd t (\<lambda>T. T\<lparr>due_date := d\<rparr>) S) t = Inr ps
           \<and> foldE (pull_parent (set_due_date n E) d) ps (upd t (\<lambda>T. T\<lparr>due_date := d\<rparr>) S) = Inr S2
           \<and> get_defined_child_list n S2 t = Inr cs
           \<and> foldE (pull_child E (set_due_date n E) d) cs S2 = Inr S3"
    and fin: "if due_date T \<noteq> d then recursive_sync n E t S3 = Inr S' else S' = S3"
    by (rule set_due_date_unfold)
  let ?S1 = "upd t (\<lambda>T. T\<lparr>due_date := d\<rparr>) S"
  have a: "dd_step d ?S1 S3"
  proof (cases "is_fuzzy d")
    case True
    with mid show ?thesis by (simp add: dd_step_refl)
  next
    case False
    with mid obtain ps S2 cs where ps: "get_defined_parent_list n ?S1 t = Inr ps"
      and S2: "foldE (pull_parent (set_due_date n E) d) ps ?S1 = Inr S2"
      and cs: "get_defined_child_list n S2 t = Inr cs"
      and S3: "foldE (pull_child E (set_due_date n E) d) cs S2 = Inr S3"
      by auto
    have "dd_step d ?S1 S2" by (rule parent_loop_step [OF Suc.IH S2])
    moreover have "dd_step d S2 S3"
      by (rule child_loop_step [OF Suc.IH False defined_child_list_defined [OF cs] S3])
    ultimately show ?thesis by (rule dd_step_trans)
  qed
  have "dd_step d S3 S'"
    using fin by (cases "due_date T = d") (auto simp: dd_step_refl dd_step_recursive_sync)
  with a show ?case by (rule dd_step_trans)
qed

lemma set_due_date_exists:
  "set_due_date n E t d S = Inr S' \<Longrightarrow> \<exists>T. tasks S t = Some T"
  by (cases n) (auto split: option.splits)

lemma set_due_date_self:
  assumes "set_due_date n E t d S = Inr S'"
  shows "\<exists>T'. tasks S' t = Some T' \<and> due_date T' = d"
proof -
  from set_due_date_exists [OF assms] obtain T where T: "tasks S t = Some T" by auto
  then have "tasks (upd t (\<lambda>T. T\<lparr>due_date := d\<rparr>) S) t = Some (T\<lparr>due_date := d\<rparr>)"
    by (simp add: tasks_upd)
  from dd_stepD [OF set_due_date_step [OF assms] this] show ?thesis
    by (auto dest: task_stepD)
qed

subsection \<open>After the loops of \<^verbatim>\<open>set_due_date\<close>\<close>

lemma foldE_stable_on:
  assumes stable: "\<And>y s s'. y \<in> A \<Longrightarrow> I s \<Longrightarrow> f y s = Inr s' \<Longrightarrow> Q s \<Longrightarrow> Q s'"
    and inv: "\<And>y s s'. y \<in> A \<Longrightarrow> I s \<Longrightarrow> f y s = Inr s' \<Longrightarrow> I s'"
  shows "set xs \<subseteq> A \<Longrightarrow> I s \<Longrightarrow> Q s \<Longrightarrow> foldE f xs s = Inr s' \<Longrightarrow> Q s' \<and> I s'"
proof (induction xs arbitrary: s)
  case Nil
  then show ?case by simp
next
  case (Cons x xs)
  from Cons.prems(4) obtain s1 where s1: "f x s = Inr s1" and rest: "foldE f xs s1 = Inr s'"
    by (auto simp: bindE_Inr_iff)
  from Cons.prems(1) have xA: "x \<in> A" and sub: "set xs \<subseteq> A" by auto
  from sub inv [OF xA Cons.prems(2) s1] stable [OF xA Cons.prems(2) s1 Cons.prems(3)] rest
  show ?case by (rule Cons.IH)
qed

lemma foldE_post_on:
  assumes est: "\<And>x s s'. x \<in> A \<Longrightarrow> I s \<Longrightarrow> f x s = Inr s' \<Longrightarrow> Q x s'"
    and stable: "\<And>x y s s'. y \<in> A \<Longrightarrow> I s \<Longrightarrow> f y s = Inr s' \<Longrightarrow> Q x s \<Longrightarrow> Q x s'"
    and inv: "\<And>y s s'. y \<in> A \<Longrightarrow> I s \<Longrightarrow> f y s = Inr s' \<Longrightarrow> I s'"
  shows "set xs \<subseteq> A \<Longrightarrow> I s \<Longrightarrow> foldE f xs s = Inr s' \<Longrightarrow> \<forall>x\<in>set xs. Q x s'"
proof (induction xs arbitrary: s)
  case Nil
  then show ?case by simp
next
  case (Cons x xs)
  from Cons.prems(3) obtain s1 where s1: "f x s = Inr s1" and rest: "foldE f xs s1 = Inr s'"
    by (auto simp: bindE_Inr_iff)
  from Cons.prems(1) have xA: "x \<in> A" and sub: "set xs \<subseteq> A" by auto
  have I1: "I s1" by (rule inv [OF xA Cons.prems(2) s1])
  have q: "Q x s1" by (rule est [OF xA Cons.prems(2) s1])
  have tail: "\<forall>y\<in>set xs. Q y s'" by (rule Cons.IH [OF sub I1 rest])
  have "Q x s' \<and> I s'"
    by (rule foldE_stable_on [where I = I and Q = "Q x" and f = f and A = A, OF _ _ sub I1 q rest])
      (auto intro: stable inv)
  with tail show ?case by simp
qed

lemma foldE_id:
  "(\<And>x. x \<in> set xs \<Longrightarrow> f x s = Inr s) \<Longrightarrow> foldE f xs s = Inr s"
  by (induction xs) simp_all

lemma date_lt_irrefl [simp]: "\<not> date_lt d d"
  by (cases d) auto

lemma dd_step_keeps_not_before:
  assumes "dd_step d S S'" and "\<exists>P. tasks S p = Some P \<and> \<not> date_lt (due_date P) d"
  shows "\<exists>P. tasks S' p = Some P \<and> \<not> date_lt (due_date P) d"
proof -
  from assms(2) obtain P where P: "tasks S p = Some P" "\<not> date_lt (due_date P) d" by auto
  from dd_stepD [OF assms(1) P(1)] obtain P' where "tasks S' p = Some P'" "task_step d P P'" by auto
  with P(2) show ?thesis by (auto dest: task_stepD)
qed

lemma dd_step_keeps_not_after:
  assumes "dd_step d S S'"
    and "\<exists>C. tasks S c = Some C \<and> \<not> date_lt d (due_date C)
           \<and> (is_fuzzy (start_date C) \<or> \<not> date_lt d (start_date C))"
  shows "\<exists>C. tasks S' c = Some C \<and> \<not> date_lt d (due_date C)
           \<and> (is_fuzzy (start_date C) \<or> \<not> date_lt d (start_date C))"
proof -
  from assms(2) obtain C where C: "tasks S c = Some C" "\<not> date_lt d (due_date C)"
    "is_fuzzy (start_date C) \<or> \<not> date_lt d (start_date C)" by auto
  from dd_stepD [OF assms(1) C(1)] obtain C' where "tasks S' c = Some C'" "task_step d C C'" by auto
  with C(2,3) show ?thesis by (auto dest: task_stepD)
qed

lemma parent_loop_post:
  assumes f: "foldE (pull_parent (set_due_date n E) d) ps S = Inr S'"
  shows "\<forall>p\<in>set ps. \<exists>P. tasks S' p = Some P \<and> \<not> date_lt (due_date P) d"
proof (rule foldE_post_on [where A = UNIV and I = "\<lambda>S. True"
      and Q = "\<lambda>p S. \<exists>P. tasks S p = Some P \<and> \<not> date_lt (due_date P) d", OF _ _ _ _ _ f])
  fix x s s'
  assume r: "pull_parent (set_due_date n E) d x s = Inr s'"
  then obtain P where P: "tasks s x = Some P"
    by (auto simp: pull_parent_def split: option.splits)
  show "\<exists>P. tasks s' x = Some P \<and> \<not> date_lt (due_date P) d"
  proof (cases "date_lt (due_date P) d")
    case True
    with r P have "set_due_date n E x d s = Inr s'" by (simp add: pull_parent_def)
    from set_due_date_self [OF this] show ?thesis by auto
  next
    case False
    with r P show ?thesis by (simp add: pull_parent_def)
  qed
next
  fix x y s s'
  assume r: "pull_parent (set_due_date n E) d y s = Inr s'"
  have "dd_step d s s'"
    by (rule pull_parent_step [where rec = "set_due_date n E", OF set_due_date_step r])
  then show "\<exists>P. tasks s x = Some P \<and> \<not> date_lt (due_date P) d
      \<Longrightarrow> \<exists>P. tasks s' x = Some P \<and> \<not> date_lt (due_date P) d"
    by (rule dd_step_keeps_not_before)
qed simp_all

lemma pull_child_post:
  assumes r: "pull_child E (set_due_date n E) d c S = Inr S'"
  shows "\<exists>C. tasks S' c = Some C \<and> \<not> date_lt d (due_date C)
           \<and> (is_fuzzy (start_date C) \<or> \<not> date_lt d (start_date C))"
proof -
  from r obtain C where C: "tasks S c = Some C"
    by (auto simp: pull_child_def split: option.splits)
  from r C obtain S1 where S1: "(if date_lt d (due_date C) then set_due_date n E c d S else Inr S) = Inr S1"
    and rest: "(case tasks S1 c of None \<Rightarrow> Inl MissingTask
                | Some sub' \<Rightarrow> if \<not> is_fuzzy (start_date sub') \<and> date_lt d (start_date sub')
                               then Inr (set_start_date E c d S1) else Inr S1) = Inr S'"
    by (auto simp: pull_child_def bindE_Inr_iff)
  from rest obtain C1 where C1: "tasks S1 c = Some C1" by (auto split: option.splits)
  have due1: "\<not> date_lt d (due_date C1)"
  proof (cases "date_lt d (due_date C)")
    case True
    with S1 have "set_due_date n E c d S = Inr S1" by simp
    from set_due_date_self [OF this] C1 show ?thesis by auto
  next
    case False
    with S1 C C1 show ?thesis by simp
  qed
  show ?thesis
  proof (cases "\<not> is_fuzzy (start_date C1) \<and> date_lt d (start_date C1)")
    case True
    with rest C1 have "S' = set_start_date E c d S1" by simp
    with C1 due1 show ?thesis
      by (auto simp: set_start_date_def tasks_sync tasks_upd)
  next
    case False
    with rest C1 have "S' = S1" by auto
    with C1 due1 False show ?thesis by auto
  qed
qed

lemma child_loop_post:
  assumes nf: "\<not> is_fuzzy d"
    and cs: "\<forall>c\<in>set cs. \<exists>C. tasks S c = Some C \<and> \<not> is_fuzzy (due_date C)"
    and f: "foldE (pull_child E (set_due_date n E) d) cs S = Inr S'"
  shows "\<forall>c\<in>set cs. \<exists>C. tasks S' c = Some C \<and> \<not> date_lt d (due_date C)
           \<and> (is_fuzzy (start_date C) \<or> \<not> date_lt d (start_date C))"
proof (rule foldE_post_on [where A = "set cs"
      and I = "\<lambda>S. \<forall>c\<in>set cs. \<exists>C. tasks S c = Some C \<and> \<not> is_fuzzy (due_date C)"
      and Q = "\<lambda>c S. \<exists>C. tasks S c = Some C \<and> \<not> date_lt d (due_date C)
           \<and> (is_fuzzy (start_date C) \<or> \<not> date_lt d (start_date C))", OF _ _ _ _ cs f])
  fix x s s'
  assume "pull_child E (set_due_date n E) d x s = Inr s'"
  then show "\<exists>C. tasks s' x = Some C \<and> \<not> date_lt d (due_date C)
           \<and> (is_fuzzy (start_date C) \<or> \<not> date_lt d (start_date C))"
    by (rule pull_child_post)
next
  fix x y s s'
  assume y: "y \<in> set cs" and I: "\<forall>c\<in>set cs. \<exists>C. tasks s c = Some C \<and> \<not> is_fuzzy (due_date C)"
    and r: "pull_child E (set_due_date n E) d y s = Inr s'"
  have "dd_step d s s'"
    by (rule pull_child_step [where rec = "set_due_date n E", OF set_due_date_step r]) (use y I in auto)
  then show "\<exists>C. tasks s x = Some C \<and> \<not> date_lt d (due_date C)
           \<and> (is_fuzzy (start_date C) \<or> \<not> date_lt d (start_date C))
      \<Longrightarrow> \<exists>C. tasks s' x = Some C \<and> \<not> date_lt d (due_date C)
           \<and> (is_fuzzy (start_date C) \<or> \<not> date_lt d (start_date C))"
    by (rule dd_step_keeps_not_after)
next
  fix y s s'
  assume y: "y \<in> set cs" and I: "\<forall>c\<in>set cs. \<exists>C. tasks s c = Some C \<and> \<not> is_fuzzy (due_date C)"
    and r: "pull_child E (set_due_date n E) d y s = Inr s'"
  have "dd_step d s s'"
    by (rule pull_child_step [where rec = "set_due_date n E", OF set_due_date_step r]) (use y I in auto)
  from dd_step_keeps_defined [OF nf this I]
  show "\<forall>c\<in>set cs. \<exists>C. tasks s' c = Some C \<and> \<not> is_fuzzy (due_date C)" .
qed simp

lemma set_due_date_inside:
  assumes r: "set_due_date (Suc n) E t d S = Inr S'" and nf: "\<not> is_fuzzy d"
  obtains T ps S2 cs where "tasks S t = Some T"
    and "get_defined_parent_list n (upd t (\<lambda>T. T\<lparr>due_date := d\<rparr>) S) t = Inr ps"
    and "dd_step d (upd t (\<lambda>T. T\<lparr>due_date := d\<rparr>) S) S2"
    and "get_defined_child_list n S2 t = Inr cs"
    and "dd_step d S2 S'"
    and "\<forall>p\<in>set ps. \<exists>P. tasks S' p = Some P \<and> \<not> date_lt (due_date P) d"
    and "\<forall>c\<in>set cs. \<exists>C. tasks S' c = Some C \<and> \<not> date_lt d (due_date C)
           \<and> (is_fuzzy (start_date C) \<or> \<not> date_lt d (start_date C))"
proof -
  let ?S1 = "upd t (\<lambda>T. T\<lparr>due_date := d\<rparr>) S"
  from r obtain T S3 where T: "tasks S t = Some T"
    and mid: "if is_fuzzy d then S3 = ?S1
         else \<exists>ps S2 cs.
           get_defined_parent_list n ?S1 t = Inr ps
           \<and> foldE (pull_parent (set_due_date n E) d) ps ?S1 = Inr S2
           \<and> get_defined_child_list n S2 t = Inr cs
           \<and> foldE (pull_child E (set_due_date n E) d) cs S2 = Inr S3"
    and fin: "if due_date T \<noteq> d then recursive_sync n E t S3 = Inr S' else S' = S3"
    by (rule set_due_date_unfold)
  from mid nf obtain ps S2 cs where ps: "get_defined_parent_list n ?S1 t = Inr ps"
    and S2: "foldE (pull_parent (set_due_date n E) d) ps ?S1 = Inr S2"
    and cs: "get_defined_child_list n S2 t = Inr cs"
    and S3: "foldE (pull_child E (set_due_date n E) d) cs S2 = Inr S3"
    by auto
  have s12: "dd_step d ?S1 S2" by (rule parent_loop_step [OF set_due_date_step S2])
  have s23: "dd_step d S2 S3"
    by (rule child_loop_step [OF set_due_date_step nf defined_child_list_defined [OF cs] S3])
  have s3: "dd_step d S3 S'"
    using fin by (cases "due_date T = d") (auto simp: dd_step_refl dd_step_recursive_sync)
  have s2: "dd_step d S2 S'" by (rule dd_step_trans [OF s23 s3])
  have pp: "\<forall>p\<in>set ps. \<exists>P. tasks S' p = Some P \<and> \<not> date_lt (due_date P) d"
    using parent_loop_post [OF S2] dd_step_keeps_not_before [OF s2] by blast
  have cc: "\<forall>c\<in>set cs. \<exists>C. tasks S' c = Some C \<and> \<not> date_lt d (due_date C)
           \<and> (is_fuzzy (start_date C) \<or> \<not> date_lt d (start_date C))"
    using child_loop_post [OF nf defined_child_list_defined [OF cs] S3]
      dd_step_keeps_not_after [OF s3] by blast
  from T ps s12 cs s2 pp cc show ?thesis by (rule that)
qed

lemma upd_same:
  "tasks S t = Some T \<Longrightarrow> f T = T \<Longrightarrow> upd t f S = S"
  by (simp add: upd_def fun_upd_idem)

lemma pull_parent_id:
  "tasks S p = Some P \<Longrightarrow> \<not> date_lt (due_date P) d \<Longrightarrow> pull_parent rec d p S = Inr S"
  by (simp add: pull_parent_def)

lemma pull_child_id:
  "tasks S c = Some C \<Longrightarrow> \<not> date_lt d (due_date C)
   \<Longrightarrow> is_fuzzy (start_date C) \<or> \<not> date_lt d (start_date C)
   \<Longrightarrow> pull_child E rec d c S = Inr S"
  by (auto simp: pull_child_def)

text \<open>
  C9. When a call of \<^verbatim>\<open>set_due_date\<close> has returned, a second call with the same date, at
  any later time of the clock, returns too and leaves the world as the first call left it:
  it sends no notification (the log of notifications is part of the world) and changes no
  task. In the second call the stored due date does not change, none of the nearest defined
  parents and children needs a new date, and \<^verbatim>\<open>recursive_sync\<close> is skipped.
\<close>

theorem set_due_date_twice:
  assumes "set_due_date n E t d S = Inr S'"
  shows "set_due_date n E' t d S' = Inr S'"
proof (cases n)
  case 0
  with assms show ?thesis by simp
next
  case (Suc m)
  from set_due_date_self [OF assms] obtain T' where T': "tasks S' t = Some T'" "due_date T' = d"
    by auto
  then have same: "upd t (\<lambda>T. T\<lparr>due_date := d\<rparr>) S' = S'"
    by (intro upd_same [of _ _ T']) auto
  show ?thesis
  proof (cases "is_fuzzy d")
    case True
    with T' same Suc show ?thesis by (simp add: Let_def)
  next
    case False
    let ?S1 = "upd t (\<lambda>T. T\<lparr>due_date := d\<rparr>) S"
    from assms Suc have r: "set_due_date (Suc m) E t d S = Inr S'" by blast
    obtain T ps S2 cs where T: "tasks S t = Some T"
      and ps: "get_defined_parent_list m ?S1 t = Inr ps"
      and s12: "dd_step d ?S1 S2"
      and cs: "get_defined_child_list m S2 t = Inr cs"
      and s2: "dd_step d S2 S'"
      and pp: "\<forall>p\<in>set ps. \<exists>P. tasks S' p = Some P \<and> \<not> date_lt (due_date P) d"
      and cc: "\<forall>c\<in>set cs. \<exists>C. tasks S' c = Some C \<and> \<not> date_lt d (due_date C)
           \<and> (is_fuzzy (start_date C) \<or> \<not> date_lt d (start_date C))"
      by (rule set_due_date_inside [OF r False])
    have sk2: "same_skel S2 S'" by (rule dd_step_skel [OF False s2])
    have sk1: "same_skel ?S1 S'" by (rule dd_step_skel [OF False dd_step_trans [OF s12 s2]])
    have ps': "get_defined_parent_list m S' t = Inr ps"
      using get_defined_list_skel [OF sk1, of parents m t] ps
      by (simp add: get_defined_parent_list_def)
    have cs': "get_defined_child_list m S' t = Inr cs"
      using get_defined_list_skel [OF sk2, of children m t] cs
      by (simp add: get_defined_child_list_def)
    have fp: "foldE (pull_parent (set_due_date m E') d) ps S' = Inr S'"
    proof (rule foldE_id)
      fix p assume "p \<in> set ps"
      with pp obtain P where "tasks S' p = Some P" "\<not> date_lt (due_date P) d" by blast
      then show "pull_parent (set_due_date m E') d p S' = Inr S'" by (rule pull_parent_id)
    qed
    have fc: "foldE (pull_child E' (set_due_date m E') d) cs S' = Inr S'"
    proof (rule foldE_id)
      fix c assume "c \<in> set cs"
      with cc obtain C where "tasks S' c = Some C" "\<not> date_lt d (due_date C)"
        "is_fuzzy (start_date C) \<or> \<not> date_lt d (start_date C)" by blast
      then show "pull_child E' (set_due_date m E') d c S' = Inr S'" by (rule pull_child_id)
    qed
    from T' same False ps' cs' fp fc Suc show ?thesis by (simp add: Let_def)
  qed
qed

lemma events_after_Some: "events_after r = Some es \<Longrightarrow> \<exists>S'. r = Inr S' \<and> events S' = es"
  by (cases r) (auto simp: events_after_def)

text \<open>A call on the chain of three tasks, evaluated.\<close>

lemma chain_eval:
  "events_after (set_due_date 5 env0 ''c'' (Concrete 9)
      (chain_world (Concrete 5) (FuzzyDate Someday) (Concrete 7)))
     = Some [Modified ''g'', Modified ''p'', Modified ''c'', Modified ''c'']"
  by (simp add: eval_nat_numeral events_after_def chain_world_def chain_task_def world_of_def
      init_task_def env0_def upd_def sync_def notify_def Let_def
      get_defined_parent_list_def get_defined_child_list_def add_defined_def
      pull_parent_def pull_child_def set_start_date_def)

theorem set_due_date_twice_witness:
  "\<exists>S'. set_due_date 5 env0 ''c'' (Concrete 9)
          (chain_world (Concrete 5) (FuzzyDate Someday) (Concrete 7)) = Inr S'
      \<and> set_due_date 5 env0 ''c'' (Concrete 9) S' = Inr S'
      \<and> events S' = [Modified ''g'', Modified ''p'', Modified ''c'', Modified ''c'']"
proof -
  from events_after_Some [OF chain_eval] obtain S' where
    a: "set_due_date 5 env0 ''c'' (Concrete 9)
          (chain_world (Concrete 5) (FuzzyDate Someday) (Concrete 7)) = Inr S'"
    and b: "events S' = [Modified ''g'', Modified ''p'', Modified ''c'', Modified ''c'']"
    by blast
  from set_due_date_twice [OF a] a b show ?thesis by blast
qed

subsection \<open>\<^verbatim>\<open>set_due_date\<close> breaks no edge\<close>















subsection \<open>The constraint over the whole tree\<close>





















subsection \<open>The chain of three tasks\<close>











subsection \<open>Disarming with a valid term\<close>

text \<open>
  C2. A task without children, not recurring, whose clock shows 1000: \<^verbatim>\<open>set_recurring(False, "day")\<close>
  with the valid term \<^verbatim>\<open>day\<close> stores the term and the time, and leaves \<^verbatim>\<open>recurring\<close> at
  \<^verbatim>\<open>False\<close>: the branch for a call that does not ask for recurrence never sets the
  attribute, where the docstring of \<^verbatim>\<open>set_recurring\<close> says it is set to \<^verbatim>\<open>True\<close>. With
  \<^verbatim>\<open>True\<close> asked for, the same call arms the task.
\<close>

theorem set_recurring_false_valid_term:
  "recurrence_after (set_recurring 1 env0 ''t'' False (Some ''day'') False (text_world ''''))
      ''t'' = Some (False, Some ''day'', Some 1000)
   \<and> recurrence_after (set_recurring 1 env0 ''t'' True (Some ''day'') False (text_world ''''))
      ''t'' = Some (True, Some ''day'', Some 1000)"
  by (simp add: recurrence_after_def is_valid_term_def text_world_def world_of_def text_task_def
      init_task_def env0_def upd_def sync_def notify_def Let_def)

subsection \<open>\<^verbatim>\<open>set_status\<close> without a status\<close>

text \<open>
  C7, as the code has it. With a status that is \<^verbatim>\<open>None\<close> or empty, \<^verbatim>\<open>set_status\<close> returns,
  whatever the other arguments are, and it changes the task in two attributes only:
  \<^verbatim>\<open>can_be_deleted\<close> becomes \<^verbatim>\<open>False\<close>, and \<^verbatim>\<open>sync\<close> stamps the task unless syncing is
  disabled. Status, closing date and every other attribute stay, no other task changes,
  and the one notification is the \<^verbatim>\<open>modified()\<close> of \<^verbatim>\<open>sync\<close> for a loaded task.
\<close>

theorem set_status_without_status:
  assumes "tasks S t = Some T" and "\<not> truthy status_arg"
  shows "\<exists>S'. set_status (Suc n) E t status_arg donedate propagation init S = Inr S'
     \<and> tasks S' = (tasks S)(t \<mapsto> T\<lparr>can_be_deleted := False,
           last_modified := (if sync_disabled T then last_modified T else now E)\<rparr>)
     \<and> events S' = events S @ (if loaded T \<and> \<not> sync_disabled T then [Modified t] else [])
     \<and> tag_lists S' = tag_lists S \<and> tag_registry S' = tag_registry S
     \<and> next_ref S' = next_ref S \<and> fresh_ids S' = fresh_ids S"
proof -
  from assms(2) have nc: "\<not> closes status_arg"
    by (auto simp: truthy_def closes_def STA_DONE_def STA_DISMISSED_def split: option.splits)
  from assms(2) have s4: "(case status_arg of None \<Rightarrow> S0 | Some s \<Rightarrow> if s \<noteq> [] then f s else S0) = S0"
    for S0 :: world and f
    by (auto simp: truthy_def split: option.splits)
  show ?thesis
    using assms nc
    by (cases "sync_disabled T")
       (auto simp: finish_status_def s4 Let_def sync_def upd_def notify_def)
qed

theorem set_status_without_status_witness:
  "tasks (text_world ''note'') ''t'' = Some (text_task ''note'') \<and> \<not> truthy None
   \<and> deletable_after (set_status (Suc 0) env0 ''t'' None None False False (text_world ''note'')) ''t''
       = Some False
   \<and> content_of (set_status (Suc 0) env0 ''t'' None None False False (text_world ''note'')) ''t''
       = Some ''note''"
proof -
  have a: "tasks (text_world ''note'') ''t'' = Some (text_task ''note'')"
    by (simp add: text_world_def world_of_def)
  have b: "\<not> truthy None" by (simp add: truthy_def)
  from set_status_without_status [OF a b, of 0 env0 None False False]
  obtain S' where "set_status (Suc 0) env0 ''t'' None None False False (text_world ''note'') = Inr S'"
    and "tasks S' = (tasks (text_world ''note''))(''t'' \<mapsto> (text_task ''note'')\<lparr>can_be_deleted := False,
           last_modified := (if sync_disabled (text_task ''note'') then last_modified (text_task ''note'')
                             else now env0)\<rparr>)"
    by blast
  then have "deletable_after (set_status (Suc 0) env0 ''t'' None None False False (text_world ''note'')) ''t''
       = Some False"
    and "content_of (set_status (Suc 0) env0 ''t'' None None False False (text_world ''note'')) ''t''
       = Some ''note''"
    by (simp_all add: deletable_after_def content_of_def text_task_def)
  with a b show ?thesis by blast
qed

text \<open>
  The claim that every attribute stays fails for a task that is still new: it can be
  deleted before the call and not after it.
\<close>

theorem set_status_without_status_clears_deletable:
  "map_option can_be_deleted (tasks (text_world ''note'') ''t'') = Some True
   \<and> deletable_after (set_status 1 env0 ''t'' None None False False (text_world ''note'')) ''t''
       = Some False"
  by (simp add: deletable_after_def text_world_def world_of_def text_task_def init_task_def
      env0_def truthy_def closes_def finish_status_def upd_def sync_def notify_def Let_def)

subsection \<open>Making a task active again\<close>

lemma active_not_closed [simp]: "\<not> is_closed STA_ACTIVE" "\<not> closes (Some STA_ACTIVE)"
  "truthy (Some STA_ACTIVE)"
  by (simp_all add: is_closed_def closes_def truthy_def STA_ACTIVE_def STA_DONE_def STA_DISMISSED_def)

lemma task_reopen_refl: "task_reopen T T"
  by (simp add: task_reopen_def)

lemma task_reopen_trans: "task_reopen T T' \<Longrightarrow> task_reopen T' T'' \<Longrightarrow> task_reopen T T''"
  unfolding task_reopen_def
  by (cases T, cases T', cases T'') auto

lemma task_reopen_same:
  "task_reopen T T' \<Longrightarrow>
     parents T' = parents T \<and> children T' = children T \<and> loaded T' = loaded T
     \<and> closed_date T' = closed_date T \<and> due_date T' = due_date T \<and> start_date T' = start_date T
     \<and> content T' = content T \<and> tags T' = tags T \<and> title T' = title T
     \<and> recurring T' = recurring T \<and> recurring_term T' = recurring_term T
     \<and> sync_disabled T' = sync_disabled T"
  by (cases T, cases T') (simp add: task_reopen_def)

lemma reopen_step_refl: "reopen_step S S"
  by (simp add: reopen_step_def option.rel_refl task_reopen_refl)

lemma reopen_step_trans:
  assumes "reopen_step S S'" and "reopen_step S' S''"
  shows "reopen_step S S''"
proof -
  have "rel_option task_reopen (tasks S u) (tasks S'' u)" for u
  proof -
    from assms have "rel_option task_reopen (tasks S u) (tasks S' u)"
      "rel_option task_reopen (tasks S' u) (tasks S'' u)" by (simp_all add: reopen_step_def)
    then show ?thesis
      by (cases "tasks S u"; cases "tasks S' u"; cases "tasks S'' u")
         (auto intro: task_reopen_trans)
  qed
  with assms show ?thesis by (simp add: reopen_step_def)
qed

lemma reopen_stepD:
  "reopen_step S S' \<Longrightarrow> tasks S u = Some T \<Longrightarrow> \<exists>T'. tasks S' u = Some T' \<and> task_reopen T T'"
  unfolding reopen_step_def
  by (elim conjE, drule spec [of _ u]) (cases "tasks S' u", auto)

lemma reopen_step_back:
  "reopen_step S S' \<Longrightarrow> tasks S' u = Some T' \<Longrightarrow> \<exists>T. tasks S u = Some T \<and> task_reopen T T'"
  unfolding reopen_step_def
  by (elim conjE, drule spec [of _ u]) (cases "tasks S u", auto)

lemma reopen_step_upd:
  assumes "\<And>T. task_reopen T (f T)"
  shows "reopen_step S (upd t f S)"
  unfolding reopen_step_def
proof (intro conjI allI)
  fix u show "rel_option task_reopen (tasks S u) (tasks (upd t f S) u)"
    by (cases "tasks S u") (auto simp: tasks_upd assms task_reopen_refl)
qed simp_all

lemma reopen_step_notify: "reopen_step S (notify e S)"
  by (simp add: reopen_step_def notify_def option.rel_refl task_reopen_refl)

lemma reopen_step_sync: "reopen_step S (snd (sync E t S))"
  unfolding reopen_step_def
proof (intro conjI allI)
  fix u show "rel_option task_reopen (tasks S u) (tasks (snd (sync E t S)) u)"
    by (cases "tasks S u") (auto simp: tasks_sync task_reopen_def)
qed simp_all

lemma finish_active:
  "tasks S3 t = Some T3 \<Longrightarrow>
     reopen_step S3 (finish_status E t (Some STA_ACTIVE) donedate init S3)
     \<and> status_of (finish_status E t (Some STA_ACTIVE) donedate init S3) t = Some STA_ACTIVE
     \<and> (\<forall>u. u \<noteq> t \<longrightarrow> tasks (finish_status E t (Some STA_ACTIVE) donedate init S3) u = tasks S3 u)"
proof -
  assume T3: "tasks S3 t = Some T3"
  let ?Sn = "if \<not> init then notify (StatusChanged t (status T3) STA_ACTIVE) S3 else S3"
  let ?S4 = "upd t (\<lambda>T. T\<lparr>status := STA_ACTIVE\<rparr>) ?Sn"
  have ne: "STA_ACTIVE \<noteq> []" by (simp add: STA_ACTIVE_def)
  have fin: "finish_status E t (Some STA_ACTIVE) donedate init S3 = snd (sync E t ?S4)"
    using T3 ne by (simp add: finish_status_def Let_def)
  have a: "reopen_step S3 ?Sn" by (simp add: reopen_step_notify reopen_step_refl)
  have b: "reopen_step ?Sn ?S4"
    by (rule reopen_step_upd) (simp add: task_reopen_def)
  have c: "reopen_step ?S4 (snd (sync E t ?S4))" by (rule reopen_step_sync)
  have tn: "tasks ?Sn = tasks S3" by (simp add: notify_def)
  from a b c have "reopen_step S3 (snd (sync E t ?S4))" by (blast intro: reopen_step_trans)
  moreover have "status_of (snd (sync E t ?S4)) t = Some STA_ACTIVE"
    using T3 tn by (simp add: status_of_def tasks_sync tasks_upd)
  moreover have "\<forall>u. u \<noteq> t \<longrightarrow> tasks (snd (sync E t ?S4)) u = tasks S3 u"
    using tn by (simp add: tasks_sync tasks_upd)
  ultimately show ?thesis by (simp add: fin)
qed

lemma set_status_active_unfold:
  assumes "set_status (Suc n) E t (Some STA_ACTIVE) donedate propagation init S = Inr S'"
  obtains T S3 where "tasks S t = Some T"
    and "if loaded T \<and> is_closed (status T)
         then foldE (reopen_parent (set_status n E)) (parents T)
                (upd t (\<lambda>T. T\<lparr>can_be_deleted := False\<rparr>) S) = Inr S3
         else S3 = upd t (\<lambda>T. T\<lparr>can_be_deleted := False\<rparr>) S"
    and "S' = finish_status E t (Some STA_ACTIVE) donedate init S3"
proof -
  from assms obtain T where T: "tasks S t = Some T" by (auto split: option.splits)
  from assms T obtain S3 where
    a: "(if loaded T \<and> is_closed (status T)
         then foldE (reopen_parent (set_status n E)) (parents T)
                (upd t (\<lambda>T. T\<lparr>can_be_deleted := False\<rparr>) S)
         else Inr (upd t (\<lambda>T. T\<lparr>can_be_deleted := False\<rparr>) S)) = Inr S3"
    and b: "S' = finish_status E t (Some STA_ACTIVE) donedate init S3"
    by (auto simp: Let_def bindE_Inr_iff is_closed_def split: if_splits)
  from a have "if loaded T \<and> is_closed (status T)
         then foldE (reopen_parent (set_status n E)) (parents T)
                (upd t (\<lambda>T. T\<lparr>can_be_deleted := False\<rparr>) S) = Inr S3
         else S3 = upd t (\<lambda>T. T\<lparr>can_be_deleted := False\<rparr>) S"
    by (auto split: if_splits)
  with T b show ?thesis by (rule_tac that)
qed

lemma task_reopen_status: "task_reopen T T' \<Longrightarrow> status T' = status T \<or> status T' = STA_ACTIVE"
  by (simp add: task_reopen_def)

lemma ancestor_reopen_step:
  assumes "reopen_step S S'"
  shows "ancestor S t a \<longleftrightarrow> ancestor S' t a"
proof
  assume "ancestor S t a"
  then show "ancestor S' t a"
  proof (induction rule: ancestor.induct)
    case (parent t T p)
    from reopen_stepD [OF assms parent(1)] obtain T' where T': "tasks S' t = Some T'" "task_reopen T T'"
      by auto
    from task_reopen_same [OF T'(2)] parent(2) have "p \<in> set (parents T')" by simp
    then show ?case by (rule ancestor.parent [OF T'(1)])
  next
    case (above t T p a)
    from reopen_stepD [OF assms above(1)] obtain T' where T': "tasks S' t = Some T'" "task_reopen T T'"
      by auto
    from task_reopen_same [OF T'(2)] above(2) have "p \<in> set (parents T')" by simp
    then show ?case using above(4) by (rule ancestor.above [OF T'(1)])
  qed
next
  assume "ancestor S' t a"
  then show "ancestor S t a"
  proof (induction rule: ancestor.induct)
    case (parent t T' p)
    from reopen_step_back [OF assms parent(1)] obtain T where T: "tasks S t = Some T" "task_reopen T T'"
      by auto
    from task_reopen_same [OF T(2)] parent(2) have "p \<in> set (parents T)" by simp
    then show ?case by (rule ancestor.parent [OF T(1)])
  next
    case (above t T' p a)
    from reopen_step_back [OF assms above(1)] obtain T where T: "tasks S t = Some T" "task_reopen T T'"
      by auto
    from task_reopen_same [OF T(2)] above(2) have "p \<in> set (parents T)" by simp
    then show ?case using above(4) by (rule ancestor.above [OF T(1)])
  qed
qed

lemma reopen_step_not_closed:
  assumes "reopen_step S S'" and "tasks S q = Some Q" and "loaded Q \<longrightarrow> \<not> is_closed (status Q)"
  shows "\<exists>Q'. tasks S' q = Some Q' \<and> (loaded Q' \<longrightarrow> \<not> is_closed (status Q'))"
proof -
  from reopen_stepD [OF assms(1,2)] obtain Q' where Q': "tasks S' q = Some Q'" "task_reopen Q Q'"
    by auto
  from task_reopen_same [OF Q'(2)] have l: "loaded Q' = loaded Q" by simp
  from task_reopen_status [OF Q'(2)] have "status Q' = status Q \<or> status Q' = STA_ACTIVE" .
  with l assms(3) Q'(1) show ?thesis by auto
qed

lemma reopened_up_trans:
  assumes s1: "reopen_step S S'" and s2: "reopen_step S' S''"
    and u1: "reopened_up S S'" and u2: "reopened_up S' S''"
  shows "reopened_up S S''"
  unfolding reopened_up_def
proof (intro allI impI, elim conjE)
  fix u U q Q
  assume U: "tasks S u = Some U" "loaded U" "is_closed (status U)"
    and act: "status_of S'' u = Some STA_ACTIVE"
    and q: "q \<in> set (parents U)" "tasks S'' q = Some Q" "loaded Q"
  from reopen_stepD [OF s1 U(1)] obtain U' where U': "tasks S' u = Some U'" "task_reopen U U'" by auto
  from reopen_step_back [OF s2 q(2)] obtain Q' where Q': "tasks S' q = Some Q'" "task_reopen Q' Q" by auto
  from task_reopen_same [OF U'(2)] have same: "parents U' = parents U" "loaded U' = loaded U"
    by simp_all
  from task_reopen_same [OF Q'(2)] task_reopen_status [OF Q'(2)]
  have qsame: "loaded Q' = loaded Q" "status Q = status Q' \<or> status Q = STA_ACTIVE"
    by simp_all
  show "\<not> is_closed (status Q)"
  proof (cases "status U' = STA_ACTIVE")
    case True
    with U U' q(1) Q' qsame q(3) u1 have "\<not> is_closed (status Q')"
      unfolding reopened_up_def status_of_def by (metis option.simps(9))
    with qsame show ?thesis by auto
  next
    case False
    with task_reopen_status [OF U'(2)] U(3) have "is_closed (status U')" by auto
    with U' same U(2) act q u2 show ?thesis
      unfolding reopened_up_def by metis
  qed
qed

lemma reopened_up_refl: "reopened_up S S"
  unfolding reopened_up_def status_of_def by auto

lemma reopens_refl: "reopens t S S"
  by (simp add: reopens_def reopen_step_refl reopened_up_refl)

lemma reopens_trans:
  assumes "reopens t S S'" and "reopens t S' S''"
  shows "reopens t S S''"
proof -
  from assms have s: "reopen_step S S'" "reopen_step S' S''"
    and u: "reopened_up S S'" "reopened_up S' S''"
    and f1: "\<forall>u. u \<noteq> t \<and> \<not> ancestor S t u \<longrightarrow> tasks S' u = tasks S u"
    and f2: "\<forall>u. u \<noteq> t \<and> \<not> ancestor S' t u \<longrightarrow> tasks S'' u = tasks S' u"
    by (simp_all add: reopens_def)
  have "tasks S'' u = tasks S u" if "u \<noteq> t" "\<not> ancestor S t u" for u
  proof -
    from that(2) ancestor_reopen_step [OF s(1)] have "\<not> ancestor S' t u" by simp
    with that f1 f2 show ?thesis by simp
  qed
  with reopen_step_trans [OF s] reopened_up_trans [OF s u] show ?thesis
    by (simp add: reopens_def)
qed

lemma reopens_parent:
  assumes x: "reopens x S S'" and T: "tasks S t = Some T" and p: "x \<in> set (parents T)"
  shows "reopens t S S'"
proof -
  have "tasks S' u = tasks S u" if "u \<noteq> t" "\<not> ancestor S t u" for u
  proof -
    from ancestor.parent [OF T p] that(2) have "u \<noteq> x" by auto
    moreover from that(2) have "\<not> ancestor S x u" by (auto dest: ancestor.above [OF T p])
    ultimately show ?thesis using x by (simp add: reopens_def)
  qed
  with x show ?thesis by (simp add: reopens_def)
qed

lemma set_status_active_reopens:
  "\<forall>t donedate propagation init S S'.
     set_status n E t (Some STA_ACTIVE) donedate propagation init S = Inr S'
     \<longrightarrow> reopens t S S' \<and> status_of S' t = Some STA_ACTIVE"
proof (induction n)
  case 0
  show ?case by simp
next
  case (Suc n)
  show ?case
  proof (intro allI impI)
    fix t donedate propagation init S S'
    assume r: "set_status (Suc n) E t (Some STA_ACTIVE) donedate propagation init S = Inr S'"
    let ?S0 = "upd t (\<lambda>T. T\<lparr>can_be_deleted := False\<rparr>) S"
    from set_status_active_unfold [OF r] obtain T S3 where T: "tasks S t = Some T"
      and c: "if loaded T \<and> is_closed (status T)
              then foldE (reopen_parent (set_status n E)) (parents T) ?S0 = Inr S3
              else S3 = ?S0"
      and fin: "S' = finish_status E t (Some STA_ACTIVE) donedate init S3"
      by blast
    have s0: "reopen_step S ?S0"
      by (rule reopen_step_upd) (simp add: task_reopen_def)
    have T0: "tasks ?S0 t = Some (T\<lparr>can_be_deleted := False\<rparr>)" using T by (simp add: tasks_upd)
    have o0: "tasks ?S0 u = tasks S u" if "u \<noteq> t" for u using that by (simp add: tasks_upd)
    have r0: "reopens t S ?S0"
      unfolding reopens_def reopened_up_def status_of_def
    proof (intro conjI allI impI)
      show "reopen_step S ?S0" by (rule s0)
    next
      fix u U q Q
      assume a: "tasks S u = Some U \<and> loaded U \<and> is_closed (status U)
                 \<and> map_option status (tasks ?S0 u) = Some STA_ACTIVE
                 \<and> q \<in> set (parents U) \<and> tasks ?S0 q = Some Q \<and> loaded Q"
      then have "status U = STA_ACTIVE" by (cases "u = t") (auto simp: tasks_upd)
      with a show "\<not> is_closed (status Q)" by auto
    next
      fix u assume "u \<noteq> t \<and> \<not> ancestor S t u"
      then show "tasks ?S0 u = tasks S u" by (simp add: o0)
    qed
    have step: "reopens t s s' \<and> (\<exists>P. tasks s' x = Some P \<and> (loaded P \<longrightarrow> \<not> is_closed (status P)))"
      if x: "x \<in> set (parents T)"
        and I: "\<exists>Ts. tasks s t = Some Ts \<and> parents Ts = parents T"
        and f: "reopen_parent (set_status n E) x s = Inr s'" for x s s'
    proof -
      from I obtain Ts where Ts: "tasks s t = Some Ts" "parents Ts = parents T" by blast
      from f obtain P where P: "tasks s x = Some P"
        by (auto simp: reopen_parent_def split: option.splits)
      show ?thesis
      proof (cases "loaded P \<and> is_closed (status P)")
        case True
        with f P have "set_status n E x (Some STA_ACTIVE) None False False s = Inr s'"
          by (simp add: reopen_parent_def is_closed_def)
        with Suc.IH have rx: "reopens x s s'" and ax: "status_of s' x = Some STA_ACTIVE" by blast+
        from x Ts have "x \<in> set (parents Ts)" by simp
        from reopens_parent [OF rx Ts(1) this] ax show ?thesis
          by (auto simp: status_of_def)
      next
        case False
        with f P have "s' = s" by (auto simp: reopen_parent_def is_closed_def split: if_splits)
        with P False show ?thesis by (auto simp: reopens_refl)
      qed
    qed
    have inv: "\<exists>Ts. tasks s' t = Some Ts \<and> parents Ts = parents T"
      if "\<exists>Ts. tasks s t = Some Ts \<and> parents Ts = parents T" "reopens t s s'" for s s'
    proof -
      from that(1) obtain Ts where Ts: "tasks s t = Some Ts" "parents Ts = parents T" by blast
      from that(2) have "reopen_step s s'" by (simp add: reopens_def)
      from reopen_stepD [OF this Ts(1)] obtain Ts' where "tasks s' t = Some Ts'" "task_reopen Ts Ts'"
        by blast
      with Ts(2) task_reopen_same [of Ts Ts'] show ?thesis by simp
    qed
    have I0: "\<exists>Ts. tasks ?S0 t = Some Ts \<and> parents Ts = parents T" using T0 by simp
    have r3: "reopens t ?S0 S3"
      and post: "loaded T \<and> is_closed (status T) \<longrightarrow>
                 (\<forall>x\<in>set (parents T). \<exists>P. tasks S3 x = Some P \<and> (loaded P \<longrightarrow> \<not> is_closed (status P)))"
    proof -
      show "reopens t ?S0 S3"
      proof (cases "loaded T \<and> is_closed (status T)")
        case True
        with c have f: "foldE (reopen_parent (set_status n E)) (parents T) ?S0 = Inr S3" by simp
        show ?thesis
          by (rule foldE_rel [where R = "reopens t"
                and I = "\<lambda>s. \<exists>Ts. tasks s t = Some Ts \<and> parents Ts = parents T",
                OF reopens_refl reopens_trans inv _ I0 f])
             (use step in blast)+
      next
        case False
        with c show ?thesis by (simp add: reopens_refl)
      qed
      show "loaded T \<and> is_closed (status T) \<longrightarrow>
                 (\<forall>x\<in>set (parents T). \<exists>P. tasks S3 x = Some P \<and> (loaded P \<longrightarrow> \<not> is_closed (status P)))"
      proof
        assume "loaded T \<and> is_closed (status T)"
        with c have f: "foldE (reopen_parent (set_status n E)) (parents T) ?S0 = Inr S3" by simp
        show "\<forall>x\<in>set (parents T). \<exists>P. tasks S3 x = Some P \<and> (loaded P \<longrightarrow> \<not> is_closed (status P))"
        proof (rule foldE_post_on [where A = "set (parents T)"
                and I = "\<lambda>s. \<exists>Ts. tasks s t = Some Ts \<and> parents Ts = parents T"
                and Q = "\<lambda>x s. \<exists>P. tasks s x = Some P \<and> (loaded P \<longrightarrow> \<not> is_closed (status P))",
                OF _ _ _ subset_refl I0 f])
          fix x s s'
          assume "x \<in> set (parents T)" "\<exists>Ts. tasks s t = Some Ts \<and> parents Ts = parents T"
            "reopen_parent (set_status n E) x s = Inr s'"
          from step [OF this] show "\<exists>P. tasks s' x = Some P \<and> (loaded P \<longrightarrow> \<not> is_closed (status P))"
            by simp
        next
          fix x y s s'
          assume a: "y \<in> set (parents T)" "\<exists>Ts. tasks s t = Some Ts \<and> parents Ts = parents T"
            "reopen_parent (set_status n E) y s = Inr s'"
            and q: "\<exists>P. tasks s x = Some P \<and> (loaded P \<longrightarrow> \<not> is_closed (status P))"
          from step [OF a] have "reopen_step s s'" by (simp add: reopens_def)
          with q show "\<exists>P. tasks s' x = Some P \<and> (loaded P \<longrightarrow> \<not> is_closed (status P))"
            by (auto dest: reopen_step_not_closed)
        next
          fix y s s'
          assume a: "y \<in> set (parents T)" "\<exists>Ts. tasks s t = Some Ts \<and> parents Ts = parents T"
            "reopen_parent (set_status n E) y s = Inr s'"
          from step [OF a] a(2) show "\<exists>Ts. tasks s' t = Some Ts \<and> parents Ts = parents T"
            by (auto intro: inv)
        qed
      qed
    qed
    from inv [OF I0 r3] obtain T3 where T3: "tasks S3 t = Some T3" by blast
    from finish_active [OF T3, of E donedate init] fin
    have sf: "reopen_step S3 S'" and act: "status_of S' t = Some STA_ACTIVE"
      and of: "\<forall>u. u \<noteq> t \<longrightarrow> tasks S' u = tasks S3 u" by simp_all
    have r03: "reopens t S S3" by (rule reopens_trans [OF r0 r3])
    then have s03: "reopen_step S S3" and u03: "reopened_up S S3"
      and f03: "\<forall>u. u \<noteq> t \<and> \<not> ancestor S t u \<longrightarrow> tasks S3 u = tasks S u"
      by (simp_all add: reopens_def)
    have "reopened_up S S'"
      unfolding reopened_up_def
    proof (intro allI impI, elim conjE)
      fix u U q Q
      assume U: "tasks S u = Some U" "loaded U" "is_closed (status U)"
        and a: "status_of S' u = Some STA_ACTIVE"
        and q: "q \<in> set (parents U)" "tasks S' q = Some Q" "loaded Q"
      from reopen_step_back [OF sf q(2)] obtain Q3 where Q3: "tasks S3 q = Some Q3" "task_reopen Q3 Q"
        by blast
      from task_reopen_same [OF Q3(2)] task_reopen_status [OF Q3(2)]
      have qs: "loaded Q3 = loaded Q" "status Q = status Q3 \<or> status Q = STA_ACTIVE" by simp_all
      have "\<not> is_closed (status Q3)"
      proof (cases "u = t")
        case True
        with U T q(1) post Q3(1) qs(1) q(3) show ?thesis by auto
      next
        case False
        with a of have "status_of S3 u = Some STA_ACTIVE" by (simp add: status_of_def)
        with u03 U q(1) Q3(1) qs(1) q(3) show ?thesis
          unfolding reopened_up_def by blast
      qed
      with qs(2) show "\<not> is_closed (status Q)" by auto
    qed
    moreover have "reopen_step S S'" by (rule reopen_step_trans [OF s03 sf])
    moreover have "\<forall>u. u \<noteq> t \<and> \<not> ancestor S t u \<longrightarrow> tasks S' u = tasks S u"
      using f03 of by simp
    ultimately show "reopens t S S' \<and> status_of S' t = Some STA_ACTIVE"
      using act by (simp add: reopens_def)
  qed
qed

lemma foldE_total_on:
  assumes step: "\<And>x s. x \<in> A \<Longrightarrow> I s \<Longrightarrow> \<exists>s'. f x s = Inr s' \<and> I s'"
  shows "set xs \<subseteq> A \<Longrightarrow> I s \<Longrightarrow> \<exists>s'. foldE f xs s = Inr s' \<and> I s'"
proof (induction xs arbitrary: s)
  case Nil
  then show ?case by simp
next
  case (Cons x xs)
  from Cons.prems have "x \<in> A" by simp
  from step [OF this Cons.prems(2)] obtain s1 where s1: "f x s = Inr s1" "I s1" by blast
  from Cons.prems(1) have "set xs \<subseteq> A" by simp
  from Cons.IH [OF this s1(2)] s1(1) show ?case by simp
qed

lemma ranked_reopen_step:
  assumes "reopen_step S S'" and "ranked S rank"
  shows "ranked S' rank"
  unfolding ranked_def
proof (intro allI impI, elim conjE)
  fix t T' p
  assume a: "tasks S' t = Some T'" "p \<in> set (parents T')"
  from reopen_step_back [OF assms(1) a(1)] obtain T where T: "tasks S t = Some T" "task_reopen T T'"
    by blast
  from task_reopen_same [OF T(2)] a(2) have "p \<in> set (parents T)" by simp
  with assms(2) T(1) have b: "tasks S p \<noteq> None" "rank p < rank t" by (auto simp: ranked_def)
  from b(1) reopen_stepD [OF assms(1)] have "tasks S' p \<noteq> None" by fastforce
  with b(2) show "tasks S' p \<noteq> None \<and> rank p < rank t" by simp
qed

lemma ranked_ancestor: "ancestor S u a \<Longrightarrow> ranked S rank \<Longrightarrow> rank a < rank u"
proof (induction rule: ancestor.induct)
  case (parent t T p)
  then show ?case by (auto simp: ranked_def)
next
  case (above t T p a)
  from above(1,2,5) have "rank p < rank t" by (auto simp: ranked_def)
  with above.IH [OF above(5)] show ?case by simp
qed

lemma set_status_active_total:
  "\<forall>t donedate propagation init S.
     ranked S rank \<and> tasks S t \<noteq> None \<and> rank t < n
     \<longrightarrow> (\<exists>S'. set_status n E t (Some STA_ACTIVE) donedate propagation init S = Inr S')"
proof (induction n)
  case 0
  show ?case by simp
next
  case (Suc n)
  show ?case
  proof (intro allI impI, elim conjE)
    fix t donedate propagation init S
    assume rk: "ranked S rank" and ex: "tasks S t \<noteq> None" and lt: "rank t < Suc n"
    from ex obtain T where T: "tasks S t = Some T" by blast
    let ?S0 = "upd t (\<lambda>T. T\<lparr>can_be_deleted := False\<rparr>) S"
    have s0: "reopen_step S ?S0"
      by (rule reopen_step_upd) (simp add: task_reopen_def)
    have "\<exists>s'. foldE (reopen_parent (set_status n E)) (parents T) ?S0 = Inr s' \<and> reopen_step ?S0 s'"
    proof (rule foldE_total_on [where A = "set (parents T)" and I = "reopen_step ?S0",
            OF _ subset_refl reopen_step_refl])
      fix x s
      assume x: "x \<in> set (parents T)" and s: "reopen_step ?S0 s"
      have ss: "reopen_step S s" by (rule reopen_step_trans [OF s0 s])
      have rs: "ranked s rank" by (rule ranked_reopen_step [OF ss rk])
      from reopen_stepD [OF ss T] obtain Ts where Ts: "tasks s t = Some Ts" "task_reopen T Ts"
        by blast
      from task_reopen_same [OF Ts(2)] x have "x \<in> set (parents Ts)" by simp
      with rs Ts(1) have b: "tasks s x \<noteq> None" "rank x < rank t" by (auto simp: ranked_def)
      then obtain P where P: "tasks s x = Some P" by blast
      show "\<exists>s'. reopen_parent (set_status n E) x s = Inr s' \<and> reopen_step ?S0 s'"
      proof (cases "loaded P \<and> (status P = STA_DONE \<or> status P = STA_DISMISSED)")
        case True
        from b lt have "rank x < n" by simp
        with Suc.IH rs b(1) obtain s' where
          r: "set_status n E x (Some STA_ACTIVE) None False False s = Inr s'" by blast
        from set_status_active_reopens [rule_format, OF r] have "reopen_step s s'"
          by (simp add: reopens_def)
        from reopen_step_trans [OF s this] r P True show ?thesis
          by (simp add: reopen_parent_def)
      next
        case False
        with P s show ?thesis by (auto simp: reopen_parent_def)
      qed
    qed
    then obtain S3 where "foldE (reopen_parent (set_status n E)) (parents T) ?S0 = Inr S3" by blast
    with T show "\<exists>S'. set_status (Suc n) E t (Some STA_ACTIVE) donedate propagation init S = Inr S'"
      by (simp add: Let_def)
  qed
qed

lemma reopened_up_parent:
  assumes s: "reopen_step S S'" and u: "reopened_up S S'"
    and T: "tasks S t = Some T" "loaded T" "is_closed (status T)"
    and a: "status_of S' t = Some STA_ACTIVE"
    and p: "p \<in> set (parents T)" "tasks S p = Some P" "loaded P"
  shows "status_of S' p = Some STA_ACTIVE \<or> \<not> is_closed (status P)"
proof -
  from reopen_stepD [OF s p(2)] obtain P' where P': "tasks S' p = Some P'" "task_reopen P P'"
    by blast
  from task_reopen_same [OF P'(2)] p(3) have "loaded P'" by simp
  with u T a p(1) P'(1) have "\<not> is_closed (status P')"
    unfolding reopened_up_def by blast
  with task_reopen_status [OF P'(2)] P'(1) show ?thesis
    by (auto simp: status_of_def)
qed

lemma reopened_up_closed_above:
  assumes s: "reopen_step S S'" and u: "reopened_up S S'"
  shows "closed_above S t a \<Longrightarrow> \<exists>T. tasks S t = Some T \<and> loaded T \<and> is_closed (status T)
           \<Longrightarrow> status_of S' t = Some STA_ACTIVE \<Longrightarrow> status_of S' a = Some STA_ACTIVE"
proof (induction rule: closed_above.induct)
  case (parent t T p P)
  from parent(1,6) have "loaded T" "is_closed (status T)" by auto
  from reopened_up_parent [OF s u parent(1) this parent(7) parent(2,3,4)] parent(5)
  show ?case by simp
next
  case (above t T p P a)
  from above(1,8) have "loaded T" "is_closed (status T)" by auto
  from reopened_up_parent [OF s u above(1) this above(9) above(2,3,4)] above(5)
  have "status_of S' p = Some STA_ACTIVE" by simp
  moreover from above(3,4,5) have "\<exists>T. tasks S p = Some T \<and> loaded T \<and> is_closed (status T)"
    by simp
  ultimately show ?case by (rule above.IH [rotated])
qed

lemma finish_active_task:
  assumes "tasks S3 t = Some T3"
  shows "tasks (finish_status E t (Some STA_ACTIVE) donedate init S3) t =
     Some (T3\<lparr>status := STA_ACTIVE,
               last_modified := (if sync_disabled T3 then last_modified T3 else now E)\<rparr>)"
proof -
  let ?Sn = "if \<not> init then notify (StatusChanged t (status T3) STA_ACTIVE) S3 else S3"
  let ?S4 = "upd t (\<lambda>T. T\<lparr>status := STA_ACTIVE\<rparr>) ?Sn"
  have ne: "STA_ACTIVE \<noteq> []" by (simp add: STA_ACTIVE_def)
  have fin: "finish_status E t (Some STA_ACTIVE) donedate init S3 = snd (sync E t ?S4)"
    using assms ne by (simp add: finish_status_def Let_def)
  have tn: "tasks ?Sn = tasks S3" by (simp add: notify_def)
  show ?thesis
    unfolding fin using assms tn by (simp add: tasks_sync tasks_upd)
qed

lemma reopen_parents_keep_task:
  assumes T: "tasks S t = Some T" and na: "\<not> ancestor S t t"
    and s0: "reopen_step S S0"
    and f: "foldE (reopen_parent (set_status n E)) (parents T) S0 = Inr S3"
  shows "tasks S3 t = tasks S0 t"
proof -
  have "tasks S3 t = tasks S0 t \<and> reopen_step S S3"
  proof (rule foldE_stable_on [where A = "set (parents T)" and I = "reopen_step S"
          and Q = "\<lambda>s. tasks s t = tasks S0 t", OF _ _ subset_refl s0 refl f])
    fix x s s'
    assume x: "x \<in> set (parents T)" and I: "reopen_step S s"
      and r: "reopen_parent (set_status n E) x s = Inr s'"
    have "reopen_step s s' \<and> tasks s' t = tasks s t"
    proof -
      from r obtain P where P: "tasks s x = Some P"
        by (auto simp: reopen_parent_def split: option.splits)
      show ?thesis
      proof (cases "loaded P \<and> (status P = STA_DONE \<or> status P = STA_DISMISSED)")
        case False
        with r P have "s' = s" by (auto simp: reopen_parent_def)
        then show ?thesis by (simp add: reopen_step_refl)
      next
        case True
        with r P have "set_status n E x (Some STA_ACTIVE) None False False s = Inr s'"
          by (simp add: reopen_parent_def)
        from set_status_active_reopens [rule_format, OF this]
        have rs: "reopen_step s s'"
          and fr: "\<forall>u. u \<noteq> x \<and> \<not> ancestor s x u \<longrightarrow> tasks s' u = tasks s u"
          by (simp_all add: reopens_def)
        from ancestor.parent [OF T x] na have "t \<noteq> x" by auto
        moreover have "\<not> ancestor s x t"
        proof
          assume "ancestor s x t"
          with ancestor_reopen_step [OF I] have "ancestor S x t" by simp
          from ancestor.above [OF T x this] na show False by simp
        qed
        ultimately show ?thesis using rs fr by simp
      qed
    qed
    then show "reopen_step S s'" "tasks s t = tasks S0 t \<Longrightarrow> tasks s' t = tasks S0 t"
      using I by (auto intro: reopen_step_trans)
  qed
  then show ?thesis by simp
qed

lemma set_status_active_self:
  assumes r: "set_status n E t (Some STA_ACTIVE) donedate propagation init S = Inr S'"
    and T: "tasks S t = Some T" and na: "\<not> ancestor S t t"
  shows "tasks S' t =
     Some (T\<lparr>status := STA_ACTIVE, can_be_deleted := False,
              last_modified := (if sync_disabled T then last_modified T else now E)\<rparr>)"
proof -
  from r obtain m where m: "n = Suc m" by (cases n) auto
  have r': "set_status (Suc m) E t (Some STA_ACTIVE) donedate propagation init S = Inr S'"
    using r unfolding m .
  let ?S0 = "upd t (\<lambda>T. T\<lparr>can_be_deleted := False\<rparr>) S"
  from set_status_active_unfold [OF r'] obtain T0 S3 where T0: "tasks S t = Some T0"
    and c0: "if loaded T0 \<and> is_closed (status T0)
        then foldE (reopen_parent (set_status m E)) (parents T0) ?S0 = Inr S3
        else S3 = ?S0"
    and fin: "S' = finish_status E t (Some STA_ACTIVE) donedate init S3"
    by blast
  from T0 T have eq: "T0 = T" by simp
  have c: "if loaded T \<and> is_closed (status T)
        then foldE (reopen_parent (set_status m E)) (parents T) ?S0 = Inr S3
        else S3 = ?S0" using c0 unfolding eq .
  have s0: "reopen_step S ?S0"
    by (rule reopen_step_upd) (simp add: task_reopen_def)
  have "tasks S3 t = tasks ?S0 t"
  proof (cases "loaded T \<and> is_closed (status T)")
    case True
    with c have "foldE (reopen_parent (set_status m E)) (parents T) ?S0 = Inr S3" by simp
    from reopen_parents_keep_task [OF T na s0 this] show ?thesis .
  next
    case False
    with c show ?thesis by simp
  qed
  with T have "tasks S3 t = Some (T\<lparr>can_be_deleted := False\<rparr>)" by (simp add: tasks_upd)
  from finish_active_task [OF this, of E donedate init] fin show ?thesis by simp
qed

lemma set_status_active_alone:
  assumes r: "set_status n E t (Some STA_ACTIVE) donedate propagation init S = Inr S'"
    and T: "tasks S t = Some T" and no: "\<not> (loaded T \<and> is_closed (status T))"
  shows "u \<noteq> t \<Longrightarrow> tasks S' u = tasks S u"
proof -
  assume u: "u \<noteq> t"
  from r obtain m where m: "n = Suc m" by (cases n) auto
  have r': "set_status (Suc m) E t (Some STA_ACTIVE) donedate propagation init S = Inr S'"
    using r unfolding m .
  let ?S0 = "upd t (\<lambda>T. T\<lparr>can_be_deleted := False\<rparr>) S"
  from set_status_active_unfold [OF r'] obtain T0 S3 where T0: "tasks S t = Some T0"
    and c0: "if loaded T0 \<and> is_closed (status T0)
        then foldE (reopen_parent (set_status m E)) (parents T0) ?S0 = Inr S3
        else S3 = ?S0"
    and fin0: "S' = finish_status E t (Some STA_ACTIVE) donedate init S3"
    by blast
  from T0 T have eq: "T0 = T" by simp
  from c0 no have "S3 = ?S0" unfolding eq by (simp split: if_splits)
  with fin0 have fin: "S' = finish_status E t (Some STA_ACTIVE) donedate init ?S0" by simp
  from T have "tasks ?S0 t = Some (T\<lparr>can_be_deleted := False\<rparr>)" by (simp add: tasks_upd)
  from finish_active [OF this, of E donedate init] fin u show ?thesis by (simp add: tasks_upd)
qed

text \<open>
  C4, as the code has it. Take a tree in which every parent of a task is a task and no task
  is its own ancestor, and in it a task \<open>t\<close>. A call of \<^verbatim>\<open>set_status\<close> on \<open>t\<close> with
  \<^verbatim>\<open>Active\<close>, with a recursion depth above the depth of \<open>t\<close>, returns. After it (1) \<open>t\<close> is
  active, is not deletable and has the time of the call as its stamp unless syncing is
  disabled for it, and is otherwise as it was; (2) when \<open>t\<close> was loaded and done or
  dismissed, every ancestor of \<open>t\<close> reached by a chain of parents that were each loaded and
  done or dismissed is active; (3) every task other than \<open>t\<close> and its ancestors is as it
  was, so every sibling that is not also an ancestor; (4) every descendant of \<open>t\<close> is as it
  was; and (5) when \<open>t\<close> was not loaded, or not done or dismissed, every task other than \<open>t\<close>
  is as it was.
\<close>

theorem set_status_active_reopens_closed_parents:
  assumes "tasks S t = Some T" and "ranked S rank" and "rank t < n"
  shows "\<exists>S'. set_status n E t (Some STA_ACTIVE) donedate propagation init S = Inr S'
           \<and> status_of S' t = Some STA_ACTIVE
           \<and> tasks S' t =
               Some (T\<lparr>status := STA_ACTIVE, can_be_deleted := False,
                        last_modified := (if sync_disabled T then last_modified T else now E)\<rparr>)
           \<and> (loaded T \<and> is_closed (status T)
                \<longrightarrow> (\<forall>a. closed_above S t a \<longrightarrow> status_of S' a = Some STA_ACTIVE))
           \<and> (\<forall>u. u \<noteq> t \<and> \<not> ancestor S t u \<longrightarrow> tasks S' u = tasks S u)
           \<and> (\<forall>u. ancestor S u t \<longrightarrow> tasks S' u = tasks S u)
           \<and> (\<not> (loaded T \<and> is_closed (status T))
                \<longrightarrow> (\<forall>u. u \<noteq> t \<longrightarrow> tasks S' u = tasks S u))"
proof -
  from assms set_status_active_total [of rank n E] obtain S' where
    r: "set_status n E t (Some STA_ACTIVE) donedate propagation init S = Inr S'" by blast
  from set_status_active_reopens [rule_format, OF r]
  have s: "reopen_step S S'" and u: "reopened_up S S'"
    and f: "\<forall>u. u \<noteq> t \<and> \<not> ancestor S t u \<longrightarrow> tasks S' u = tasks S u"
    and a: "status_of S' t = Some STA_ACTIVE"
    by (simp_all add: reopens_def)
  have up: "\<forall>a. closed_above S t a \<longrightarrow> status_of S' a = Some STA_ACTIVE"
    if "loaded T \<and> is_closed (status T)"
  proof -
    from assms(1) that have c: "\<exists>T. tasks S t = Some T \<and> loaded T \<and> is_closed (status T)"
      by simp
    show ?thesis using reopened_up_closed_above [OF s u _ c a] by blast
  qed
  have nt: "\<not> ancestor S t t"
  proof
    assume "ancestor S t t"
    from ranked_ancestor [OF this assms(2)] show False by simp
  qed
  have self: "tasks S' t =
      Some (T\<lparr>status := STA_ACTIVE, can_be_deleted := False,
               last_modified := (if sync_disabled T then last_modified T else now E)\<rparr>)"
    by (rule set_status_active_self [OF r assms(1) nt])
  have below: "tasks S' u = tasks S u" if "ancestor S u t" for u
  proof -
    from ranked_ancestor [OF that assms(2)] have lt: "rank t < rank u" .
    then have "u \<noteq> t" by auto
    moreover have "\<not> ancestor S t u"
    proof
      assume "ancestor S t u"
      from ranked_ancestor [OF this assms(2)] lt show False by simp
    qed
    ultimately show ?thesis using f by simp
  qed
  have alone: "\<forall>u. u \<noteq> t \<longrightarrow> tasks S' u = tasks S u"
    if "\<not> (loaded T \<and> is_closed (status T))"
    using set_status_active_alone [OF r assms(1) that] by blast
  from r a self up f below alone show ?thesis by blast
qed

lemma family_tasks:
  "tasks (family_world sg sp sc lc) u =
     (if u = ''c'' then Some (family_task sc lc [''p''] [])
      else if u = ''p'' then Some (family_task sp True [''g''] [''c''])
      else if u = ''g'' then Some (family_task sg True [] [''p''])
      else None)"
  by (simp add: family_world_def world_of_def)

lemma family_dom:
  "tasks (family_world sg sp sc lc) u = Some T \<Longrightarrow>
     u = ''c'' \<and> T = family_task sc lc [''p''] []
     \<or> u = ''p'' \<and> T = family_task sp True [''g''] [''c'']
     \<or> u = ''g'' \<and> T = family_task sg True [] [''p'']"
  by (simp add: family_tasks split: if_splits)

lemma family_ranked: "ranked (family_world sg sp sc lc) family_rank"
  unfolding ranked_def
proof (intro allI impI, elim conjE)
  fix t T p
  assume "tasks (family_world sg sp sc lc) t = Some T" and p: "p \<in> set (parents T)"
  from family_dom [OF this(1)] p
  show "tasks (family_world sg sp sc lc) p \<noteq> None \<and> family_rank p < family_rank t"
    by (elim disjE conjE) (simp_all add: family_task_def family_tasks family_rank_def)
qed

theorem set_status_active_reopens_closed_parents_witness:
  "(\<exists>S'. set_status 3 env0 ''c'' (Some STA_ACTIVE) None False False
           (family_world STA_DONE STA_DISMISSED STA_DONE True) = Inr S'
       \<and> status_of S' ''c'' = Some STA_ACTIVE
       \<and> status_of S' ''p'' = Some STA_ACTIVE
       \<and> status_of S' ''g'' = Some STA_ACTIVE)
   \<and> (\<exists>S'. set_status 3 env0 ''c'' (Some STA_ACTIVE) None False False
           (family_world STA_DONE STA_DONE STA_DONE False) = Inr S'
       \<and> tasks S' ''c'' = Some ((family_task STA_DONE False [''p''] [])
            \<lparr>status := STA_ACTIVE, can_be_deleted := False, last_modified := 1000\<rparr>)
       \<and> tasks S' ''p'' = Some (family_task STA_DONE True [''g''] [''c''])
       \<and> tasks S' ''g'' = Some (family_task STA_DONE True [] [''p'']))"
proof
  let ?W = "family_world STA_DONE STA_DISMISSED STA_DONE True"
  have c: "tasks ?W ''c'' = Some (family_task STA_DONE True [''p''] [])"
    and p: "tasks ?W ''p'' = Some (family_task STA_DISMISSED True [''g''] [''c''])"
    and g: "tasks ?W ''g'' = Some (family_task STA_DONE True [] [''p''])"
    by (simp_all add: family_tasks)
  have l: "loaded (family_task STA_DONE True [''p''] [])
           \<and> is_closed (status (family_task STA_DONE True [''p''] []))"
    by (simp add: family_task_def is_closed_def)
  have rk: "family_rank ''c'' < 3" by (simp add: family_rank_def)
  have pg: "closed_above ?W ''p'' ''g''"
    by (rule closed_above.parent [OF p _ g]) (simp_all add: family_task_def is_closed_def)
  have cp: "closed_above ?W ''c'' ''p''"
    by (rule closed_above.parent [OF c _ p]) (simp_all add: family_task_def is_closed_def)
  have cg: "closed_above ?W ''c'' ''g''"
    by (rule closed_above.above [OF c _ p _ _ pg]) (simp_all add: family_task_def is_closed_def)
  from set_status_active_reopens_closed_parents [OF c family_ranked rk,
      of env0 None False False] l
  obtain S' where r: "set_status 3 env0 ''c'' (Some STA_ACTIVE) None False False ?W = Inr S'"
    and a: "status_of S' ''c'' = Some STA_ACTIVE"
    and up: "\<forall>a. closed_above ?W ''c'' a \<longrightarrow> status_of S' a = Some STA_ACTIVE"
    by blast
  from up cp cg have "status_of S' ''p'' = Some STA_ACTIVE" "status_of S' ''g'' = Some STA_ACTIVE"
    by simp_all
  with r a show "\<exists>S'. set_status 3 env0 ''c'' (Some STA_ACTIVE) None False False ?W = Inr S'
       \<and> status_of S' ''c'' = Some STA_ACTIVE
       \<and> status_of S' ''p'' = Some STA_ACTIVE
       \<and> status_of S' ''g'' = Some STA_ACTIVE" by blast
next
  let ?W = "family_world STA_DONE STA_DONE STA_DONE False"
  let ?C = "family_task STA_DONE False [''p''] []"
  have c: "tasks ?W ''c'' = Some ?C"
    and p: "tasks ?W ''p'' = Some (family_task STA_DONE True [''g''] [''c''])"
    and g: "tasks ?W ''g'' = Some (family_task STA_DONE True [] [''p''])"
    by (simp_all add: family_tasks)
  have nl: "\<not> (loaded ?C \<and> is_closed (status ?C))" by (simp add: family_task_def)
  have sd: "\<not> sync_disabled ?C" by (simp add: family_task_def init_task_def)
  have nw: "now env0 = 1000" by (simp add: env0_def)
  have rk: "family_rank ''c'' < 3" by (simp add: family_rank_def)
  from set_status_active_reopens_closed_parents [OF c family_ranked rk,
      of env0 None False False] nl
  obtain S' where r: "set_status 3 env0 ''c'' (Some STA_ACTIVE) None False False ?W = Inr S'"
    and self: "tasks S' ''c'' = Some (?C\<lparr>status := STA_ACTIVE, can_be_deleted := False,
                 last_modified := (if sync_disabled ?C then last_modified ?C else now env0)\<rparr>)"
    and alone: "\<forall>u. u \<noteq> ''c'' \<longrightarrow> tasks S' u = tasks ?W u"
    by blast
  from self sd nw have "tasks S' ''c'' =
      Some (?C\<lparr>status := STA_ACTIVE, can_be_deleted := False, last_modified := 1000\<rparr>)"
    by simp
  moreover from alone p g have "tasks S' ''p'' = Some (family_task STA_DONE True [''g''] [''c''])"
    "tasks S' ''g'' = Some (family_task STA_DONE True [] [''p''])" by simp_all
  ultimately show "\<exists>S'. set_status 3 env0 ''c'' (Some STA_ACTIVE) None False False ?W = Inr S'
       \<and> tasks S' ''c'' = Some (?C\<lparr>status := STA_ACTIVE, can_be_deleted := False,
              last_modified := 1000\<rparr>)
       \<and> tasks S' ''p'' = Some (family_task STA_DONE True [''g''] [''c''])
       \<and> tasks S' ''g'' = Some (family_task STA_DONE True [] [''p''])"
    using r by blast
qed

text \<open>
  The claim for every done task fails for one that is not loaded: \<^verbatim>\<open>c\<close> is done and not
  loaded, its parent \<^verbatim>\<open>p\<close> is loaded and done; making \<^verbatim>\<open>c\<close> active leaves \<^verbatim>\<open>p\<close> done.
\<close>

theorem set_status_active_unloaded_keeps_parent:
  "status_of (family_world STA_DONE STA_DONE STA_DONE False) ''c'' = Some STA_DONE
   \<and> map_option parents (tasks (family_world STA_DONE STA_DONE STA_DONE False) ''c'') = Some [''p'']
   \<and> status_of (family_world STA_DONE STA_DONE STA_DONE False) ''p'' = Some STA_DONE
   \<and> map_option loaded (tasks (family_world STA_DONE STA_DONE STA_DONE False) ''p'') = Some True
   \<and> status_after (set_status 3 env0 ''c'' (Some STA_ACTIVE) None False False
        (family_world STA_DONE STA_DONE STA_DONE False)) ''c'' = Some STA_ACTIVE
   \<and> status_after (set_status 3 env0 ''c'' (Some STA_ACTIVE) None False False
        (family_world STA_DONE STA_DONE STA_DONE False)) ''p'' = Some STA_DONE"
  by (simp add: eval_nat_numeral status_after_def status_of_def family_world_def family_task_def
      world_of_def init_task_def env0_def truthy_def closes_def finish_status_def upd_def
      sync_def notify_def Let_def STA_ACTIVE_def STA_DONE_def STA_DISMISSED_def)

subsection \<open>Steps that keep the status of every task\<close>

lemma same_status_refl: "same_status S S"
  by (simp add: same_status_def)

lemma same_status_trans: "same_status S S' \<Longrightarrow> same_status S' S'' \<Longrightarrow> same_status S S''"
  unfolding same_status_def by fastforce

lemma same_status_upd:
  assumes "\<And>T. status (f T) = status T \<and> closed_date (f T) = closed_date T"
    and "same_status S0 S"
  shows "same_status S0 (upd t f S)"
proof (rule same_status_trans [OF assms(2)])
  show "same_status S (upd t f S)"
    unfolding same_status_def
  proof (intro allI impI)
    fix u T assume "tasks S u = Some T"
    with assms(1) [of T]
    show "\<exists>T'. tasks (upd t f S) u = Some T' \<and> status T' = status T \<and> closed_date T' = closed_date T"
      by (cases "u = t") (simp_all add: tasks_upd)
  qed
qed

lemma same_status_tasks: "tasks S' = tasks S \<Longrightarrow> same_status S0 S \<Longrightarrow> same_status S0 S'"
  by (simp add: same_status_def)

lemma same_status_notify: "same_status S0 S \<Longrightarrow> same_status S0 (notify e S)"
  by (rule same_status_tasks) (simp_all add: notify_def)

lemma same_status_sync:
  assumes "same_status S0 S"
  shows "same_status S0 (snd (sync E t S))"
proof (rule same_status_trans [OF assms])
  show "same_status S (snd (sync E t S))"
    unfolding same_status_def
  proof (intro allI impI)
    fix u T assume "tasks S u = Some T"
    then show "\<exists>T'. tasks (snd (sync E t S)) u = Some T' \<and> status T' = status T
                 \<and> closed_date T' = closed_date T"
      by (cases "u = t") (simp_all add: tasks_sync)
  qed
qed

lemma same_status_set_start_date: "same_status S0 S \<Longrightarrow> same_status S0 (set_start_date E t d S)"
  unfolding set_start_date_def by (intro same_status_sync same_status_upd) simp_all

lemma same_status_tag_touch: "same_status S0 S \<Longrightarrow> same_status S0 (tag_touch name S)"
  by (rule same_status_tasks) (simp_all add: tag_touch_def notify_def)

lemma same_status_tag_ensure: "same_status S0 S \<Longrightarrow> same_status S0 (tag_ensure name S)"
  by (rule same_status_tasks) (simp_all add: tag_ensure_def notify_def)

lemma same_status_fold_tag_ensure: "same_status S0 S \<Longrightarrow> same_status S0 (fold tag_ensure names S)"
  by (induction names arbitrary: S) (simp_all add: same_status_tag_ensure)

lemma same_status_tree_add_child: "same_status S0 S \<Longrightarrow> same_status S0 (tree_add_child p c S)"
  unfolding tree_add_child_def by (intro same_status_upd) simp_all

lemma same_status_set_title: "same_status S0 S \<Longrightarrow> same_status S0 (snd (set_title E t x S))"
  unfolding set_title_def Let_def
  by (auto split: option.splits intro!: same_status_sync same_status_upd)

lemma same_status_dd_step:
  assumes "dd_step d S S'" and "same_status S0 S"
  shows "same_status S0 S'"
proof (rule same_status_trans [OF assms(2)])
  show "same_status S S'"
    unfolding same_status_def
  proof (intro allI impI)
    fix u T assume "tasks S u = Some T"
    from dd_stepD [OF assms(1) this] obtain T' where "tasks S' u = Some T'" "task_step d T T'"
      by blast
    with task_step_same [of d T T']
    show "\<exists>T'. tasks S' u = Some T' \<and> status T' = status T \<and> closed_date T' = closed_date T"
      by simp
  qed
qed

lemma pres_Inr: "same_status S0 S \<Longrightarrow> pres S0 (Inr S)"
  by (simp add: pres_def)

lemma pres_Inl: "pres S0 (Inl e)"
  by (simp add: pres_def)

lemma pres2_Inr: "same_status S0 S \<Longrightarrow> pres2 S0 (Inr (x, S))"
  by (simp add: pres2_def)

lemma pres2_Inl: "pres2 S0 (Inl e)"
  by (simp add: pres2_def)

lemma pres_bindE:
  "pres S0 m \<Longrightarrow> (\<And>v. same_status S0 v \<Longrightarrow> pres S0 (k v)) \<Longrightarrow> pres S0 (bindE m k)"
  by (cases m) (simp_all add: pres_def)

lemma pres_bindE2:
  "pres2 S0 m \<Longrightarrow> (\<And>v. same_status S0 (snd v) \<Longrightarrow> pres S0 (k v)) \<Longrightarrow> pres S0 (bindE m k)"
  by (cases m) (simp_all add: pres_def pres2_def)

lemma pres2_bindE:
  "pres S0 m \<Longrightarrow> (\<And>v. same_status S0 v \<Longrightarrow> pres2 S0 (k v)) \<Longrightarrow> pres2 S0 (bindE m k)"
  by (cases m) (simp_all add: pres_def pres2_def)

lemma pres2_bindE2:
  "pres2 S0 m \<Longrightarrow> (\<And>v. same_status S0 (snd v) \<Longrightarrow> pres2 S0 (k v)) \<Longrightarrow> pres2 S0 (bindE m k)"
  by (cases m) (simp_all add: pres2_def)

lemma pres_foldE:
  "(\<And>x s. same_status S0 s \<Longrightarrow> pres S0 (f x s)) \<Longrightarrow> same_status S0 S \<Longrightarrow> pres S0 (foldE f xs S)"
proof (induction xs arbitrary: S)
  case Nil
  then show ?case by (simp add: pres_def)
next
  case (Cons x xs)
  show ?case
    unfolding foldE.simps
    by (rule pres_bindE [OF Cons.prems(1) [OF Cons.prems(2)]]) (rule Cons.IH [OF Cons.prems(1)])
qed

lemma pres_if: "(c \<Longrightarrow> pres S0 a) \<Longrightarrow> (\<not> c \<Longrightarrow> pres S0 b) \<Longrightarrow> pres S0 (if c then a else b)"
  by simp

lemma pres2_if: "(c \<Longrightarrow> pres2 S0 a) \<Longrightarrow> (\<not> c \<Longrightarrow> pres2 S0 b) \<Longrightarrow> pres2 S0 (if c then a else b)"
  by simp

lemma pres_case_option:
  "pres S0 a \<Longrightarrow> (\<And>x. pres S0 (b x)) \<Longrightarrow> pres S0 (case v of None \<Rightarrow> a | Some x \<Rightarrow> b x)"
  by (cases v) simp_all

lemma pres2_case_option:
  "pres2 S0 a \<Longrightarrow> (\<And>x. pres2 S0 (b x)) \<Longrightarrow> pres2 S0 (case v of None \<Rightarrow> a | Some x \<Rightarrow> b x)"
  by (cases v) simp_all

lemma pres2_case_sum:
  "(\<And>x. pres2 S0 (a x)) \<Longrightarrow> (\<And>x. pres2 S0 (b x)) \<Longrightarrow> pres2 S0 (case v of Inl x \<Rightarrow> a x | Inr x \<Rightarrow> b x)"
  by (cases v) simp_all

lemmas pres_rules =
  pres_Inr pres_Inl pres2_Inr pres2_Inl pres_bindE pres_bindE2 pres2_bindE pres2_bindE2
  pres_foldE pres_if pres2_if pres_case_option pres2_case_option pres2_case_sum

lemmas same_status_rules =
  same_status_notify same_status_sync same_status_set_start_date same_status_tag_touch
  same_status_tag_ensure same_status_fold_tag_ensure same_status_tree_add_child
  same_status_set_title

lemma pres_set_due_date: "same_status S0 S \<Longrightarrow> pres S0 (set_due_date n E t d S)"
proof (cases "set_due_date n E t d S")
  case (Inl e)
  then show ?thesis by (simp add: pres_def)
next
  case (Inr S')
  assume a: "same_status S0 S"
  have "same_status S0 (upd t (\<lambda>T. T\<lparr>due_date := d\<rparr>) S)"
    by (rule same_status_upd [OF _ a]) simp
  from same_status_dd_step [OF set_due_date_step [OF Inr] this] Inr show ?thesis
    by (simp add: pres_def)
qed

lemma pres_set_recurring:
  "same_status S0 S \<Longrightarrow> pres S0 (set_recurring n E t r tm nt S)"
proof (induction n arbitrary: t r tm nt S)
  case 0
  show ?case by (simp add: pres_def)
next
  case (Suc n)
  note rules = pres_rules same_status_rules Suc.IH pres_set_due_date
  show ?case
    unfolding set_recurring.simps Let_def
    apply (intro rules same_status_upd Suc.prems)
    apply simp_all
    done
qed

lemma same_status_tag_lists: "same_status S0 S \<Longrightarrow> same_status S0 (S\<lparr>tag_lists := x\<rparr>)"
  by (rule same_status_tasks) simp_all

lemma pres2_tag_added: "same_status S0 S \<Longrightarrow> pres2 S0 (tag_added n E t name S)"
proof (induction n arbitrary: t S)
  case 0
  show ?case by (simp add: pres2_def)
next
  case (Suc n)
  note rules = pres_rules same_status_rules same_status_tag_lists Suc.IH
  show ?case
    unfolding tag_added.simps Let_def
    by (intro rules Suc.prems)
qed

lemma pres_add_tag: "same_status S0 S \<Longrightarrow> pres S0 (add_tag n E t name S)"
  unfolding add_tag_def Let_def
  by (intro pres_rules same_status_rules same_status_upd pres2_tag_added) simp_all

lemma pres_inherit_recursion: "same_status S0 S \<Longrightarrow> pres S0 (inherit_recursion n E t S)"
  unfolding inherit_recursion_def
  by (intro pres_rules pres_set_recurring pres_set_due_date)

lemma pres_add_child: "same_status S0 S \<Longrightarrow> pres S0 (add_child n E t c S)"
  unfolding add_child_def Let_def
  by (intro pres_rules same_status_rules same_status_upd pres_set_due_date pres_add_tag
        pres_inherit_recursion) simp_all

lemma pres2_new_task:
  assumes "same_status S0 S"
  shows "pres2 S0 (new_task n E S)"
proof (cases "fresh_ids S")
  case Nil
  then show ?thesis by (simp add: new_task_def pres2_def)
next
  case (Cons tid rest)
  show ?thesis
  proof (cases "tasks S tid = None")
    case False
    with Cons show ?thesis by (simp add: new_task_def pres2_def)
  next
    case True
    let ?S1 = "S\<lparr>tasks := (tasks S)(tid \<mapsto> init_task E (next_ref S) True),
                  tag_lists := (tag_lists S)(next_ref S := []),
                  next_ref := Suc (next_ref S), fresh_ids := rest\<rparr>"
    have "same_status S ?S1"
      unfolding same_status_def using True by auto
    with assms have "same_status S0 ?S1" by (rule same_status_trans)
    then have "pres2 S0 (bindE (set_recurring n E tid False None False ?S1) (\<lambda>S'. Inr (tid, S')))"
      by (intro pres_rules pres_set_recurring)
    with Cons True show ?thesis by (simp add: new_task_def)
  qed
qed

lemma pres2_duplicate: "same_status S0 S \<Longrightarrow> pres2 S0 (duplicate n E t S)"
  unfolding duplicate_def Let_def
  by (intro pres_rules same_status_rules same_status_upd pres_set_due_date pres_set_recurring
        pres2_new_task) simp_all

lemma pres2_duplicate_recursively:
  "same_status S0 S \<Longrightarrow> pres2 S0 (duplicate_recursively n E t S)"
proof (induction n arbitrary: t S)
  case 0
  show ?case by (simp add: pres2_def)
next
  case (Suc n)
  note rules = pres_rules same_status_rules pres2_duplicate pres_add_child Suc.IH
  show ?case
    unfolding duplicate_recursively.simps Let_def
    by (intro rules Suc.prems)
qed

lemma pres_spawn_next: "same_status S0 S \<Longrightarrow> pres S0 (spawn_next n E t S)"
  unfolding spawn_next_def Let_def
  by (intro pres_rules same_status_rules pres2_duplicate_recursively pres_add_child)

lemma spawn_next_same_status: "spawn_next n E t S = Inr S' \<Longrightarrow> same_status S S'"
  using pres_spawn_next [OF same_status_refl, of S n E t] by (simp add: pres_def)

subsection \<open>Closing a task\<close>

lemma closes_Some: "closes (Some st) \<longleftrightarrow> st = STA_DONE \<or> st = STA_DISMISSED"
  by (simp add: closes_def)

lemma closes_not_active: "closes (Some st) \<Longrightarrow> st \<noteq> STA_ACTIVE \<and> st \<noteq> [] \<and> truthy (Some st)"
  by (auto simp: closes_def truthy_def STA_ACTIVE_def STA_DONE_def STA_DISMISSED_def)

lemma task_close_refl: "task_close st d T T"
  by (simp add: task_close_def)

lemma task_close_trans: "task_close st d T T' \<Longrightarrow> task_close st d T' T'' \<Longrightarrow> task_close st d T T''"
  unfolding task_close_def
  by (cases T, cases T', cases T'') auto

lemma task_close_same:
  "task_close st d T T' \<Longrightarrow>
     parents T' = parents T \<and> children T' = children T \<and> loaded T' = loaded T"
  by (cases T, cases T') (simp add: task_close_def)

lemma task_close_status:
  "task_close st d T T' \<Longrightarrow>
     status T' = status T \<and> closed_date T' = closed_date T
     \<or> status T = STA_ACTIVE \<and> status T' = st \<and> closed_date T' = d"
  by (simp add: task_close_def)

lemma close_step_refl: "close_step st d S S"
  by (simp add: close_step_def option.rel_refl task_close_refl)

lemma close_step_trans:
  assumes "close_step st d S S'" and "close_step st d S' S''"
  shows "close_step st d S S''"
proof -
  have "rel_option (task_close st d) (tasks S u) (tasks S'' u)" for u
  proof -
    from assms have "rel_option (task_close st d) (tasks S u) (tasks S' u)"
      "rel_option (task_close st d) (tasks S' u) (tasks S'' u)" by (simp_all add: close_step_def)
    then show ?thesis
      by (cases "tasks S u"; cases "tasks S' u"; cases "tasks S'' u")
         (auto intro: task_close_trans)
  qed
  then show ?thesis by (simp add: close_step_def)
qed

lemma close_stepD:
  "close_step st d S S' \<Longrightarrow> tasks S u = Some T \<Longrightarrow> \<exists>T'. tasks S' u = Some T' \<and> task_close st d T T'"
  unfolding close_step_def
  by (drule spec [of _ u]) (cases "tasks S' u", auto)

lemma close_step_back:
  "close_step st d S S' \<Longrightarrow> tasks S' u = Some T' \<Longrightarrow> \<exists>T. tasks S u = Some T \<and> task_close st d T T'"
  unfolding close_step_def
  by (drule spec [of _ u]) (cases "tasks S u", auto)

lemma close_step_upd:
  assumes "\<And>T. task_close st d T (f T)"
  shows "close_step st d S (upd t f S)"
  unfolding close_step_def
proof (intro allI)
  fix u show "rel_option (task_close st d) (tasks S u) (tasks (upd t f S) u)"
    by (cases "tasks S u") (auto simp: tasks_upd assms task_close_refl)
qed

lemma closed_as_stable:
  assumes "close_step st d S S'" and "st \<noteq> STA_ACTIVE" and "closed_as st d S u"
  shows "closed_as st d S' u"
proof -
  from assms(3) obtain U where U: "tasks S u = Some U" "status U = st" "closed_date U = d"
    by (auto simp: closed_as_def split: option.splits)
  from close_stepD [OF assms(1) U(1)] obtain U' where U': "tasks S' u = Some U'" "task_close st d U U'"
    by blast
  from task_close_status [OF U'(2)] U(2,3) assms(2) U'(1) show ?thesis
    by (auto simp: closed_as_def)
qed

lemma close_step_active:
  assumes "close_step st d S S'" and "status_of S u = Some STA_ACTIVE"
  shows "status_of S' u = Some STA_ACTIVE \<or> closed_as st d S' u"
proof -
  from assms(2) obtain U where U: "tasks S u = Some U" "status U = STA_ACTIVE"
    by (auto simp: status_of_def)
  from close_stepD [OF assms(1) U(1)] obtain U' where U': "tasks S' u = Some U'" "task_close st d U U'"
    by blast
  from task_close_status [OF U'(2)] U(2) U'(1) show ?thesis
    by (auto simp: closed_as_def status_of_def)
qed

lemma closed_as_not_active: "closed_as st d S u \<Longrightarrow> st \<noteq> STA_ACTIVE \<Longrightarrow> status_of S u \<noteq> Some STA_ACTIVE"
  by (auto simp: closed_as_def status_of_def split: option.splits)

lemma closed_as_same_status: "same_status S S' \<Longrightarrow> closed_as st d S u \<Longrightarrow> closed_as st d S' u"
  unfolding same_status_def closed_as_def
  by (cases "tasks S u") fastforce+

lemma closing_refl: "closing st d S S"
  by (auto simp: closing_def close_step_refl closed_down_def closed_as_def status_of_def)

lemma closing_trans:
  assumes na: "st \<noteq> STA_ACTIVE" and a: "closing st d S S'" and b: "closing st d S' S''"
  shows "closing st d S S''"
proof -
  from a b have s1: "close_step st d S S'" and s2: "close_step st d S' S''"
    and d1: "closed_down st d S S'" and d2: "closed_down st d S' S''"
    by (simp_all add: closing_def)
  have "closed_down st d S S''"
    unfolding closed_down_def
  proof (intro allI impI, elim conjE)
    fix u U c C
    assume U: "tasks S u = Some U" "loaded U" "status U = STA_ACTIVE"
      and n: "status_of S'' u \<noteq> Some STA_ACTIVE"
      and c: "c \<in> set (children U)" "tasks S c = Some C" "status C = STA_ACTIVE"
    from close_stepD [OF s1 U(1)] obtain U' where U': "tasks S' u = Some U'" "task_close st d U U'"
      by blast
    from task_close_same [OF U'(2)] U(2) c(1) have same: "loaded U'" "c \<in> set (children U')"
      by simp_all
    from c(2,3) have ca: "status_of S c = Some STA_ACTIVE" by (simp add: status_of_def)
    show "closed_as st d S'' c"
    proof (cases "status_of S' u = Some STA_ACTIVE")
      case False
      with d1 U c have "closed_as st d S' c" unfolding closed_down_def by blast
      then show ?thesis by (rule closed_as_stable [OF s2 na])
    next
      case True
      with U'(1) have ua: "status U' = STA_ACTIVE" by (simp add: status_of_def)
      from close_step_active [OF s1 ca] show ?thesis
      proof
        assume "status_of S' c = Some STA_ACTIVE"
        then obtain C' where "tasks S' c = Some C'" "status C' = STA_ACTIVE"
          by (auto simp: status_of_def)
        with d2 U'(1) same ua n show ?thesis unfolding closed_down_def by blast
      next
        assume "closed_as st d S' c"
        then show ?thesis by (rule closed_as_stable [OF s2 na])
      qed
    qed
  qed
  with close_step_trans [OF s1 s2] show ?thesis by (simp add: closing_def)
qed

lemma closing_upd_deletable: "closing st d S (upd t (\<lambda>T. T\<lparr>can_be_deleted := False\<rparr>) S)"
  unfolding closing_def closed_down_def
proof (intro conjI allI impI)
  show "close_step st d S (upd t (\<lambda>T. T\<lparr>can_be_deleted := False\<rparr>) S)"
    by (rule close_step_upd) (simp add: task_close_def)
next
  fix u U c C
  assume "tasks S u = Some U \<and> loaded U \<and> status U = STA_ACTIVE
     \<and> status_of (upd t (\<lambda>T. T\<lparr>can_be_deleted := False\<rparr>) S) u \<noteq> Some STA_ACTIVE
     \<and> c \<in> set (children U) \<and> tasks S c = Some C \<and> status C = STA_ACTIVE"
  then have False by (cases "u = t") (auto simp: status_of_def tasks_upd)
  then show "closed_as st d (upd t (\<lambda>T. T\<lparr>can_be_deleted := False\<rparr>) S) c" ..
qed

lemma status_of_upd_deletable [simp]:
  "status_of (upd t (\<lambda>T. T\<lparr>can_be_deleted := False\<rparr>) S) u = status_of S u"
  by (cases "tasks S t") (auto simp: status_of_def tasks_upd)

lemma finish_close:
  assumes T3: "tasks S3 t = Some T3" and cl: "closes (Some st)"
  shows "closed_as st (done_date E donedate) (finish_status E t (Some st) donedate init S3) t
     \<and> (\<forall>u. u \<noteq> t \<longrightarrow> tasks (finish_status E t (Some st) donedate init S3) u = tasks S3 u)
     \<and> (status T3 = STA_ACTIVE \<or> closed_as st (done_date E donedate) S3 t
          \<longrightarrow> close_step st (done_date E donedate) S3 (finish_status E t (Some st) donedate init S3))"
proof -
  let ?d = "done_date E donedate"
  let ?Sn = "if \<not> init then notify (StatusChanged t (status T3) st) S3 else S3"
  let ?S5 = "upd t (\<lambda>T. T\<lparr>closed_date := ?d\<rparr>) (upd t (\<lambda>T. T\<lparr>status := st\<rparr>) ?Sn)"
  from closes_not_active [OF cl] have ne: "st \<noteq> []" by simp
  have fin: "finish_status E t (Some st) donedate init S3 = snd (sync E t ?S5)"
    using T3 ne cl by (simp add: finish_status_def Let_def done_date_def)
  have tn: "tasks ?Sn = tasks S3" by (simp add: notify_def)
  have t5: "tasks ?S5 u = (if u = t then Some (T3\<lparr>status := st, closed_date := ?d\<rparr>) else tasks S3 u)"
    for u
    using T3 by (simp add: tasks_upd tn)
  have tf: "tasks (snd (sync E t ?S5)) u =
      (if u = t
       then Some (if sync_disabled T3 then T3\<lparr>status := st, closed_date := ?d\<rparr>
                  else T3\<lparr>status := st, closed_date := ?d, last_modified := now E\<rparr>)
       else tasks S3 u)" for u
    unfolding tasks_sync t5 by simp
  have a: "closed_as st ?d (snd (sync E t ?S5)) t"
    unfolding closed_as_def tf by simp
  have b: "\<forall>u. u \<noteq> t \<longrightarrow> tasks (snd (sync E t ?S5)) u = tasks S3 u"
    unfolding tf by simp
  have c: "close_step st ?d S3 (snd (sync E t ?S5))"
    if "status T3 = STA_ACTIVE \<or> closed_as st ?d S3 t"
    unfolding close_step_def
  proof
    fix u
    show "rel_option (task_close st ?d) (tasks S3 u) (tasks (snd (sync E t ?S5)) u)"
    proof (cases "u = t")
      case False
      then show ?thesis unfolding tf by (simp add: option.rel_refl task_close_refl)
    next
      case True
      from that T3 have "status T3 = STA_ACTIVE \<or> status T3 = st \<and> closed_date T3 = ?d"
        by (auto simp: closed_as_def)
      with True T3 show ?thesis unfolding tf by (auto simp: task_close_def)
    qed
  qed
  from a b c show ?thesis unfolding fin by blast
qed

lemma set_status_close_unfold:
  assumes "set_status (Suc n) E t (Some st) donedate propagation init S = Inr S'"
    and cl: "closes (Some st)"
  obtains T S1 S3 where "tasks S t = Some T"
    and "if loaded T
         then foldE (close_child (set_status n E) (Some st) donedate) (children T)
                (upd t (\<lambda>T. T\<lparr>can_be_deleted := False\<rparr>) S) = Inr S1
              \<and> (S3 = S1 \<or> \<not> propagation \<and> spawn_next n E t S1 = Inr S3)
         else S1 = upd t (\<lambda>T. T\<lparr>can_be_deleted := False\<rparr>) S \<and> S3 = S1"
    and "S' = finish_status E t (Some st) donedate init S3"
proof -
  let ?S0 = "upd t (\<lambda>T. T\<lparr>can_be_deleted := False\<rparr>) S"
  from assms obtain T where T: "tasks S t = Some T" by (auto split: option.splits)
  from closes_not_active [OF cl] have tr: "truthy (Some st)" by simp
  show ?thesis
  proof (cases "loaded T")
    case False
    with assms T tr have "S' = finish_status E t (Some st) donedate init ?S0"
      by (simp add: Let_def)
    with T False show ?thesis by (rule_tac that [of T ?S0 ?S0]) simp_all
  next
    case True
    let ?mid = "\<lambda>S1. case tasks S1 t of
                       None \<Rightarrow> Inl MissingTask
                     | Some T1 \<Rightarrow>
                         if recurring T1 \<and> \<not> propagation
                         then bindE (is_parent_recurring S1 t)
                                (\<lambda>b. if \<not> b then spawn_next n E t S1 else Inr S1)
                         else Inr S1"
    from assms T tr True have
      "bindE (bindE (foldE (close_child (set_status n E) (Some st) donedate) (children T) ?S0) ?mid)
         (\<lambda>S3. Inr (finish_status E t (Some st) donedate init S3)) = Inr S'"
      by (simp add: Let_def)
    then obtain S1 S3 where
      f: "foldE (close_child (set_status n E) (Some st) donedate) (children T) ?S0 = Inr S1"
      and m: "?mid S1 = Inr S3"
      and fin: "S' = finish_status E t (Some st) donedate init S3"
      by (auto simp: bindE_Inr_iff)
    from m have "S3 = S1 \<or> \<not> propagation \<and> spawn_next n E t S1 = Inr S3"
      by (auto simp: bindE_Inr_iff split: option.splits if_splits)
    with T True f fin show ?thesis by (rule_tac that [of T S1 S3]) simp_all
  qed
qed

lemma close_child_closing:
  assumes H: "\<And>x s s'. set_status n E x (Some st) donedate True False s = Inr s'
                \<Longrightarrow> status_of s x = Some STA_ACTIVE \<Longrightarrow> closing st d s s' \<and> closed_as st d s' x"
    and f: "close_child (set_status n E) (Some st) donedate x s = Inr s'"
  shows "closing st d s s' \<and> (closed_as st d s' x \<or> status_of s x \<noteq> Some STA_ACTIVE \<and> s' = s)"
proof -
  from f obtain X where X: "tasks s x = Some X"
    by (auto simp: close_child_def split: option.splits)
  show ?thesis
  proof (cases "status X = STA_ACTIVE")
    case True
    with f X have "set_status n E x (Some st) donedate True False s = Inr s'"
      by (simp add: close_child_def)
    from H [OF this] X True show ?thesis by (simp add: status_of_def)
  next
    case False
    with f X have "s' = s" by (simp add: close_child_def)
    with X False show ?thesis by (simp add: closing_refl status_of_def)
  qed
qed

lemma close_children:
  assumes cl: "closes (Some st)"
    and H: "\<And>x s s'. set_status n E x (Some st) donedate True False s = Inr s'
                \<Longrightarrow> status_of s x = Some STA_ACTIVE \<Longrightarrow> closing st d s s' \<and> closed_as st d s' x"
    and f: "foldE (close_child (set_status n E) (Some st) donedate) cs S = Inr S'"
  shows "closing st d S S'
     \<and> (\<forall>c\<in>set cs. status_of S c = Some STA_ACTIVE \<longrightarrow> closed_as st d S' c)"
proof
  from closes_not_active [OF cl] have na: "st \<noteq> STA_ACTIVE" by simp
  have step: "closing st d s s' \<and> (closed_as st d s' x \<or> status_of s x \<noteq> Some STA_ACTIVE \<and> s' = s)"
    if r: "close_child (set_status n E) (Some st) donedate x s = Inr s'" for x s s'
  proof (rule close_child_closing [OF _ r])
    fix y s1 s2
    assume "set_status n E y (Some st) donedate True False s1 = Inr s2"
      "status_of s1 y = Some STA_ACTIVE"
    then show "closing st d s1 s2 \<and> closed_as st d s2 y" by (rule H)
  qed
  show "closing st d S S'"
    by (rule foldE_rel [where R = "closing st d" and I = "\<lambda>s. True",
          OF closing_refl closing_trans [OF na] _ _ _ f])
       (use step in blast)+
  show "\<forall>c\<in>set cs. status_of S c = Some STA_ACTIVE \<longrightarrow> closed_as st d S' c"
  proof (rule foldE_post [where I = "close_step st d S"
          and Q = "\<lambda>c s. status_of S c = Some STA_ACTIVE \<longrightarrow> closed_as st d s c",
          OF _ _ _ close_step_refl f])
    fix x s s'
    assume I: "close_step st d S s"
      and r: "close_child (set_status n E) (Some st) donedate x s = Inr s'"
    show "status_of S x = Some STA_ACTIVE \<longrightarrow> closed_as st d s' x"
    proof
      assume a: "status_of S x = Some STA_ACTIVE"
      from step [OF r] close_step_active [OF I a] show "closed_as st d s' x" by auto
    qed
  next
    fix x y s s'
    assume I: "close_step st d S s"
      and r: "close_child (set_status n E) (Some st) donedate y s = Inr s'"
      and q: "status_of S x = Some STA_ACTIVE \<longrightarrow> closed_as st d s x"
    from step [OF r] have "close_step st d s s'" by (simp add: closing_def)
    with q show "status_of S x = Some STA_ACTIVE \<longrightarrow> closed_as st d s' x"
      by (auto intro: closed_as_stable [OF _ na])
  next
    fix y s s'
    assume I: "close_step st d S s"
      and r: "close_child (set_status n E) (Some st) donedate y s = Inr s'"
    from step [OF r] have "close_step st d s s'" by (simp add: closing_def)
    with I show "close_step st d S s'" by (rule close_step_trans)
  qed
qed

lemma set_status_close_nested:
  assumes cl: "closes (Some st)"
  shows "\<forall>t init S S'.
     set_status n E t (Some st) donedate True init S = Inr S' \<and> status_of S t = Some STA_ACTIVE
     \<longrightarrow> closing st (done_date E donedate) S S' \<and> closed_as st (done_date E donedate) S' t"
proof (induction n)
  case 0
  show ?case by simp
next
  case (Suc n)
  let ?d = "done_date E donedate"
  from closes_not_active [OF cl] have na: "st \<noteq> STA_ACTIVE" by simp
  show ?case
  proof (intro allI impI, elim conjE)
    fix t init S S'
    assume r: "set_status (Suc n) E t (Some st) donedate True init S = Inr S'"
      and act: "status_of S t = Some STA_ACTIVE"
    let ?S0 = "upd t (\<lambda>T. T\<lparr>can_be_deleted := False\<rparr>) S"
    from set_status_close_unfold [OF r cl] obtain T S1 S3 where T: "tasks S t = Some T"
      and c3: "if loaded T
               then foldE (close_child (set_status n E) (Some st) donedate) (children T) ?S0 = Inr S1
                    \<and> (S3 = S1 \<or> \<not> True \<and> spawn_next n E t S1 = Inr S3)
               else S1 = ?S0 \<and> S3 = S1"
      and fin3: "S' = finish_status E t (Some st) donedate init S3"
      by blast
    from c3 have "S3 = S1" by (simp split: if_splits)
    with c3 fin3 have c: "if loaded T
              then foldE (close_child (set_status n E) (Some st) donedate) (children T) ?S0 = Inr S1
              else S1 = ?S0"
      and fin: "S' = finish_status E t (Some st) donedate init S1"
      by (simp_all split: if_splits)
    have H: "closing st ?d s s' \<and> closed_as st ?d s' x"
      if "set_status n E x (Some st) donedate True False s = Inr s'"
        "status_of s x = Some STA_ACTIVE" for x s s'
      using Suc.IH that by blast
    have cc: "closing st ?d ?S0 S1
        \<and> (\<forall>c\<in>set (children T). status_of ?S0 c = Some STA_ACTIVE \<longrightarrow> closed_as st ?d S1 c)"
      if f: "foldE (close_child (set_status n E) (Some st) donedate) (children T) ?S0 = Inr S1"
    proof (rule close_children [OF cl _ f])
      fix y s1 s2
      assume "set_status n E y (Some st) donedate True False s1 = Inr s2"
        "status_of s1 y = Some STA_ACTIVE"
      then show "closing st ?d s1 s2 \<and> closed_as st ?d s2 y" by (rule H)
    qed
    have c01: "closing st ?d ?S0 S1"
    proof (cases "loaded T")
      case True
      with c cc show ?thesis by simp
    next
      case False
      with c show ?thesis by (simp add: closing_refl)
    qed
    have post: "loaded T \<longrightarrow> (\<forall>c\<in>set (children T). status_of S c = Some STA_ACTIVE
                    \<longrightarrow> closed_as st ?d S1 c)"
    proof
      assume "loaded T"
      with c cc
      show "\<forall>c\<in>set (children T). status_of S c = Some STA_ACTIVE \<longrightarrow> closed_as st ?d S1 c"
        by simp
    qed
    have c1: "closing st ?d S S1" by (rule closing_trans [OF na closing_upd_deletable c01])
    then have s1: "close_step st ?d S S1" and d1: "closed_down st ?d S S1"
      by (simp_all add: closing_def)
    from close_stepD [OF s1 T] obtain T1 where T1: "tasks S1 t = Some T1" by blast
    from close_step_active [OF s1 act] T1
    have "status T1 = STA_ACTIVE \<or> closed_as st ?d S1 t" by (auto simp: status_of_def)
    with finish_close [OF T1 cl, of E donedate init] fin
    have ft: "closed_as st ?d S' t" and fo: "\<forall>u. u \<noteq> t \<longrightarrow> tasks S' u = tasks S1 u"
      and fs: "close_step st ?d S1 S'" by simp_all
    have "closed_down st ?d S S'"
      unfolding closed_down_def
    proof (intro allI impI, elim conjE)
      fix u U c C
      assume U: "tasks S u = Some U" "loaded U" "status U = STA_ACTIVE"
        and n: "status_of S' u \<noteq> Some STA_ACTIVE"
        and k: "c \<in> set (children U)" "tasks S c = Some C" "status C = STA_ACTIVE"
      have "closed_as st ?d S1 c"
      proof (cases "u = t")
        case True
        with U T k post show ?thesis by (simp add: status_of_def)
      next
        case False
        with n fo have "status_of S1 u \<noteq> Some STA_ACTIVE" by (simp add: status_of_def)
        with d1 U k show ?thesis unfolding closed_down_def by blast
      qed
      then show "closed_as st ?d S' c" by (rule closed_as_stable [OF fs na])
    qed
    with close_step_trans [OF s1 fs] ft
    show "closing st ?d S S' \<and> closed_as st ?d S' t" by (simp add: closing_def)
  qed
qed

lemma active_below_loaded: "active_below S t c \<Longrightarrow> \<exists>T. tasks S t = Some T \<and> loaded T"
  by (induction rule: active_below.induct) auto

lemma active_below_active: "active_below S t c \<Longrightarrow> status_of S c = Some STA_ACTIVE"
  by (induction rule: active_below.induct) (auto simp: status_of_def)

lemma closed_after_Inr: "closed_after st d r u \<Longrightarrow> \<exists>S'. r = Inr S' \<and> closed_as st d S' u"
  by (cases r) (auto simp: closed_after_def)

lemma active_below_mono:
  assumes s: "close_step st d S s"
  shows "active_below s x c \<Longrightarrow> active_below S x c"
proof (induction rule: active_below.induct)
  case (child x X' c C')
  from close_step_back [OF s child.hyps(1)] obtain X where
    X: "tasks S x = Some X" "task_close st d X X'" by blast
  from close_step_back [OF s child.hyps(4)] obtain C where
    C: "tasks S c = Some C" "task_close st d C C'" by blast
  from task_close_same [OF X(2)] child.hyps(2,3) have l: "loaded X" and k: "c \<in> set (children X)"
    by simp_all
  from task_close_status [OF C(2)] child.hyps(5) have a: "status C = STA_ACTIVE" by auto
  show ?case by (rule active_below.child [OF X(1) l k C(1) a])
next
  case (below x m M' c C')
  from close_step_back [OF s below.hyps(2)] obtain M where
    M: "tasks S m = Some M" "task_close st d M M'" by blast
  from close_step_back [OF s below.hyps(5)] obtain C where
    C: "tasks S c = Some C" "task_close st d C C'" by blast
  from task_close_same [OF M(2)] below.hyps(3,4) have l: "loaded M" and k: "c \<in> set (children M)"
    by simp_all
  from task_close_status [OF C(2)] below.hyps(6) have a: "status C = STA_ACTIVE" by auto
  show ?case by (rule active_below.below [OF below.IH M(1) l k C(1) a])
qed

lemma active_below_trans:
  "active_below S x c \<Longrightarrow> active_below S t x \<Longrightarrow> active_below S t c"
proof (induction rule: active_below.induct)
  case (child x X c C)
  show ?case by (rule active_below.below [OF child.prems child.hyps])
next
  case (below x m M c C)
  show ?case by (rule active_below.below [OF below.IH [OF below.prems] below.hyps(2-6)])
qed

lemma close_children_frame:
  assumes cl: "closes (Some st)"
    and H: "\<And>x s s'. set_status n E x (Some st) donedate True False s = Inr s'
                \<Longrightarrow> status_of s x = Some STA_ACTIVE \<Longrightarrow> closing st d s s' \<and> closed_as st d s' x"
    and F: "\<And>x s s'. set_status n E x (Some st) donedate True False s = Inr s'
                \<Longrightarrow> \<forall>u. u \<noteq> x \<and> \<not> active_below s x u \<longrightarrow> tasks s' u = tasks s u"
    and T: "tasks S t = Some T" and l: "loaded T"
    and s0: "close_step st d S S0"
    and f: "foldE (close_child (set_status n E) (Some st) donedate) (children T) S0 = Inr S1"
  shows "\<forall>u. \<not> active_below S t u \<longrightarrow> tasks S1 u = tasks S0 u"
proof -
  have "(\<forall>u. \<not> active_below S t u \<longrightarrow> tasks S1 u = tasks S0 u) \<and> close_step st d S S1"
  proof (rule foldE_stable_on [where A = "set (children T)" and I = "close_step st d S"
          and Q = "\<lambda>s. \<forall>u. \<not> active_below S t u \<longrightarrow> tasks s u = tasks S0 u",
          OF _ _ subset_refl s0 _ f])
    show "\<forall>u. \<not> active_below S t u \<longrightarrow> tasks S0 u = tasks S0 u" by simp
  next
    fix y s s'
    assume y: "y \<in> set (children T)" and I: "close_step st d S s"
      and r: "close_child (set_status n E) (Some st) donedate y s = Inr s'"
    have both: "close_step st d s s' \<and> (\<forall>u. \<not> active_below S t u \<longrightarrow> tasks s' u = tasks s u)"
    proof -
      from r obtain Y where Y: "tasks s y = Some Y"
        by (auto simp: close_child_def split: option.splits)
      show ?thesis
      proof (cases "status Y = STA_ACTIVE")
        case False
        with r Y have "s' = s" by (simp add: close_child_def)
        then show ?thesis by (simp add: close_step_refl)
      next
        case True
        with r Y have c: "set_status n E y (Some st) donedate True False s = Inr s'"
          by (simp add: close_child_def)
        from Y True have "status_of s y = Some STA_ACTIVE" by (simp add: status_of_def)
        from H [OF c this] have cs: "close_step st d s s'" by (simp add: closing_def)
        from close_step_back [OF I Y] obtain Y0 where Y0: "tasks S y = Some Y0"
          "task_close st d Y0 Y" by blast
        from task_close_status [OF Y0(2)] True have "status Y0 = STA_ACTIVE" by auto
        from active_below.child [OF T l y Y0(1) this] have ty: "active_below S t y" .
        have "tasks s' u = tasks s u" if nb: "\<not> active_below S t u" for u
        proof -
          from ty nb have "u \<noteq> y" by auto
          moreover have "\<not> active_below s y u"
          proof
            assume "active_below s y u"
            from active_below_trans [OF active_below_mono [OF I this] ty] nb show False by simp
          qed
          ultimately show ?thesis using F [OF c] by simp
        qed
        with cs show ?thesis by simp
      qed
    qed
    from both I show "close_step st d S s'" by (auto intro: close_step_trans)
    assume "\<forall>u. \<not> active_below S t u \<longrightarrow> tasks s u = tasks S0 u"
    with both show "\<forall>u. \<not> active_below S t u \<longrightarrow> tasks s' u = tasks S0 u" by simp
  qed
  then show ?thesis by simp
qed

lemma set_status_close_nested_frame:
  assumes cl: "closes (Some st)"
  shows "\<forall>t init S S'.
     set_status n E t (Some st) donedate True init S = Inr S'
     \<longrightarrow> (\<forall>u. u \<noteq> t \<and> \<not> active_below S t u \<longrightarrow> tasks S' u = tasks S u)"
proof (induction n)
  case 0
  show ?case by simp
next
  case (Suc n)
  let ?d = "done_date E donedate"
  show ?case
  proof (intro allI impI, elim conjE)
    fix t init S S' u
    assume r: "set_status (Suc n) E t (Some st) donedate True init S = Inr S'"
      and u: "u \<noteq> t" and nb: "\<not> active_below S t u"
    let ?S0 = "upd t (\<lambda>T. T\<lparr>can_be_deleted := False\<rparr>) S"
    from set_status_close_unfold [OF r cl] obtain T S1 S3 where T: "tasks S t = Some T"
      and c3: "if loaded T
               then foldE (close_child (set_status n E) (Some st) donedate) (children T) ?S0 = Inr S1
                    \<and> (S3 = S1 \<or> \<not> True \<and> spawn_next n E t S1 = Inr S3)
               else S1 = ?S0 \<and> S3 = S1"
      and fin3: "S' = finish_status E t (Some st) donedate init S3"
      by blast
    from c3 have "S3 = S1" by (simp split: if_splits)
    with c3 fin3 have c: "if loaded T
              then foldE (close_child (set_status n E) (Some st) donedate) (children T) ?S0 = Inr S1
              else S1 = ?S0"
      and fin: "S' = finish_status E t (Some st) donedate init S1"
      by (simp_all split: if_splits)
    have H: "closing st ?d s1 s2 \<and> closed_as st ?d s2 y"
      if "set_status n E y (Some st) donedate True False s1 = Inr s2"
        "status_of s1 y = Some STA_ACTIVE" for y s1 s2
      using set_status_close_nested [OF cl, of n E donedate] that by blast
    have F: "\<forall>u. u \<noteq> y \<and> \<not> active_below s1 y u \<longrightarrow> tasks s2 u = tasks s1 u"
      if "set_status n E y (Some st) donedate True False s1 = Inr s2" for y s1 s2
      using Suc.IH that by blast
    have s0: "close_step st ?d S ?S0"
      by (rule close_step_upd) (simp add: task_close_def)
    have s01: "close_step st ?d ?S0 S1 \<and> tasks S1 u = tasks ?S0 u"
    proof (cases "loaded T")
      case False
      with c show ?thesis by (simp add: close_step_refl)
    next
      case True
      with c have f: "foldE (close_child (set_status n E) (Some st) donedate) (children T) ?S0
          = Inr S1" by simp
      have "closing st ?d ?S0 S1
        \<and> (\<forall>c\<in>set (children T). status_of ?S0 c = Some STA_ACTIVE \<longrightarrow> closed_as st ?d S1 c)"
      proof (rule close_children [OF cl _ f])
        fix y s1 s2
        assume "set_status n E y (Some st) donedate True False s1 = Inr s2"
          "status_of s1 y = Some STA_ACTIVE"
        then show "closing st ?d s1 s2 \<and> closed_as st ?d s2 y" by (rule H)
      qed
      then have a: "close_step st ?d ?S0 S1" by (simp add: closing_def)
      have "\<forall>u. \<not> active_below S t u \<longrightarrow> tasks S1 u = tasks ?S0 u"
      proof (rule close_children_frame [OF cl _ _ T True s0 f])
        fix y s1 s2
        assume "set_status n E y (Some st) donedate True False s1 = Inr s2"
          "status_of s1 y = Some STA_ACTIVE"
        then show "closing st ?d s1 s2 \<and> closed_as st ?d s2 y" by (rule H)
      next
        fix y s1 s2
        assume "set_status n E y (Some st) donedate True False s1 = Inr s2"
        then show "\<forall>u. u \<noteq> y \<and> \<not> active_below s1 y u \<longrightarrow> tasks s2 u = tasks s1 u" by (rule F)
      qed
      with nb a show ?thesis by simp
    qed
    from close_stepD [OF close_step_trans [OF s0 conjunct1 [OF s01]] T] obtain T1 where
      T1: "tasks S1 t = Some T1" by blast
    from finish_close [OF T1 cl, of E donedate init] fin u have "tasks S' u = tasks S1 u"
      by simp
    with s01 u show "tasks S' u = tasks S u" by (simp add: tasks_upd)
  qed
qed

text \<open>
  C3, as the code has it. When a call of \<^verbatim>\<open>set_status\<close> on the task \<open>t\<close> with \<^verbatim>\<open>Done\<close> or
  \<^verbatim>\<open>Dismissed\<close> has returned, (1) the task has that status and, as its closing date, the
  done date supplied or else today; (2) so has every descendant that the cascade reaches:
  every child of \<open>t\<close> that was active, when \<open>t\<close> is loaded, and every child that was active
  of a loaded task among those reached; and (3) every other task there was before the call
  has kept its status and its closing date. So an active descendant is closed when some
  chain of children leads to it on which every task was active and every task above it is
  loaded, and keeps its status when there is no such chain.
\<close>

theorem set_status_close_cascade:
  assumes "set_status n E t (Some st) donedate propagation init S = Inr S'"
    and "st = STA_DONE \<or> st = STA_DISMISSED"
  shows "closed_as st (done_date E donedate) S' t
     \<and> (\<forall>c. active_below S t c \<longrightarrow> closed_as st (done_date E donedate) S' c)
     \<and> (\<forall>u U. u \<noteq> t \<and> \<not> active_below S t u \<and> tasks S u = Some U
           \<longrightarrow> (\<exists>U'. tasks S' u = Some U' \<and> status U' = status U
                  \<and> closed_date U' = closed_date U))"
proof -
  let ?d = "done_date E donedate"
  from assms(2) have cl: "closes (Some st)" by (simp add: closes_Some)
  from closes_not_active [OF cl] have na: "st \<noteq> STA_ACTIVE" by simp
  from assms(1) obtain m where "n = Suc m" by (cases n) auto
  with assms(1) have r: "set_status (Suc m) E t (Some st) donedate propagation init S = Inr S'"
    by simp
  let ?S0 = "upd t (\<lambda>T. T\<lparr>can_be_deleted := False\<rparr>) S"
  from set_status_close_unfold [OF r cl] obtain T S1 S3 where T: "tasks S t = Some T"
    and c: "if loaded T
            then foldE (close_child (set_status m E) (Some st) donedate) (children T) ?S0 = Inr S1
                 \<and> (S3 = S1 \<or> \<not> propagation \<and> spawn_next m E t S1 = Inr S3)
            else S1 = ?S0 \<and> S3 = S1"
    and fin: "S' = finish_status E t (Some st) donedate init S3"
    by blast
  have cc: "closing st ?d ?S0 S1
      \<and> (\<forall>c\<in>set (children T). status_of ?S0 c = Some STA_ACTIVE \<longrightarrow> closed_as st ?d S1 c)"
    if f: "foldE (close_child (set_status m E) (Some st) donedate) (children T) ?S0 = Inr S1"
  proof (rule close_children [OF cl _ f])
    fix y s1 s2
    assume "set_status m E y (Some st) donedate True False s1 = Inr s2"
      "status_of s1 y = Some STA_ACTIVE"
    with set_status_close_nested [OF cl, of m E donedate]
    show "closing st ?d s1 s2 \<and> closed_as st ?d s2 y" by blast
  qed
  have c01: "closing st ?d ?S0 S1"
  proof (cases "loaded T")
    case True
    with c cc show ?thesis by simp
  next
    case False
    with c show ?thesis by (simp add: closing_refl)
  qed
  have c1: "closing st ?d S S1" by (rule closing_trans [OF na closing_upd_deletable c01])
  then have s1: "close_step st ?d S S1" and d1: "closed_down st ?d S S1"
    by (simp_all add: closing_def)
  have s13: "same_status S1 S3"
  proof (cases "S3 = S1")
    case True
    then show ?thesis by (simp add: same_status_refl)
  next
    case False
    with c have "spawn_next m E t S1 = Inr S3" by (auto split: if_splits)
    then show ?thesis by (rule spawn_next_same_status)
  qed
  from close_stepD [OF s1 T] obtain T1 where T1: "tasks S1 t = Some T1" by blast
  with s13 obtain T3 where T3: "tasks S3 t = Some T3" by (auto simp: same_status_def)
  from finish_close [OF T3 cl, of E donedate init] fin
  have ft: "closed_as st ?d S' t" and fo: "\<forall>u. u \<noteq> t \<longrightarrow> tasks S' u = tasks S3 u"
    by simp_all
  have reach: "active_below S t' c \<Longrightarrow> t' = t \<Longrightarrow> closed_as st ?d S1 c" for t' c
  proof (induction rule: active_below.induct)
    case (child t' T' c C)
    with T have l: "loaded T" and k: "c \<in> set (children T)" by simp_all
    from child have "status_of S c = Some STA_ACTIVE" by (simp add: status_of_def)
    then have "status_of ?S0 c = Some STA_ACTIVE" by simp
    with l k c cc show ?case by simp
  next
    case (below t' m M c C)
    from below.IH [OF below.prems] have "closed_as st ?d S1 m" .
    from closed_as_not_active [OF this na] have n: "status_of S1 m \<noteq> Some STA_ACTIVE" .
    from active_below_active [OF below.hyps(1)] below.hyps(2) have "status M = STA_ACTIVE"
      by (simp add: status_of_def)
    with d1 n below.hyps(2-6) show ?case unfolding closed_down_def by blast
  qed
  have "closed_as st ?d S' c" if "active_below S t c" for c
  proof (cases "c = t")
    case True
    with ft show ?thesis by simp
  next
    case False
    from reach [OF that refl] have "closed_as st ?d S3 c" by (rule closed_as_same_status [OF s13])
    with False fo show ?thesis by (simp add: closed_as_def)
  qed
  then have reached: "\<forall>c. active_below S t c \<longrightarrow> closed_as st ?d S' c" by simp
  have kept: "\<exists>U'. tasks S' u = Some U' \<and> status U' = status U \<and> closed_date U' = closed_date U"
    if u: "u \<noteq> t" and nb: "\<not> active_below S t u" and U: "tasks S u = Some U" for u U
  proof -
    from u U have U0: "tasks ?S0 u = Some U" by (simp add: tasks_upd)
    have "tasks S1 u = tasks ?S0 u"
    proof (cases "loaded T")
      case False
      with c show ?thesis by simp
    next
      case True
      with c have f: "foldE (close_child (set_status m E) (Some st) donedate) (children T) ?S0
          = Inr S1" by simp
      have "\<forall>u. \<not> active_below S t u \<longrightarrow> tasks S1 u = tasks ?S0 u"
      proof (rule close_children_frame [OF cl _ _ T True _ f])
        fix y s1 s2
        assume "set_status m E y (Some st) donedate True False s1 = Inr s2"
          "status_of s1 y = Some STA_ACTIVE"
        with set_status_close_nested [OF cl, of m E donedate]
        show "closing st ?d s1 s2 \<and> closed_as st ?d s2 y" by blast
      next
        fix y s1 s2
        assume "set_status m E y (Some st) donedate True False s1 = Inr s2"
        with set_status_close_nested_frame [OF cl, of m E donedate]
        show "\<forall>u. u \<noteq> y \<and> \<not> active_below s1 y u \<longrightarrow> tasks s2 u = tasks s1 u" by blast
      next
        show "close_step st ?d S ?S0"
          by (rule close_step_upd) (simp add: task_close_def)
      qed
      with nb show ?thesis by simp
    qed
    with U0 have "tasks S1 u = Some U" by simp
    with s13 obtain U3 where "tasks S3 u = Some U3" "status U3 = status U"
      "closed_date U3 = closed_date U" by (auto simp: same_status_def)
    with fo u show ?thesis by simp
  qed
  from ft reached kept show ?thesis by blast
qed

lemma family_close_eval:
  "closed_after STA_DONE (Concrete 10)
     (set_status 4 env0 ''g'' (Some STA_DONE) None False False
        (family_world STA_ACTIVE STA_ACTIVE STA_ACTIVE True)) ''g''"
  by (simp add: eval_nat_numeral closed_after_def closed_as_def family_world_def family_task_def
      world_of_def init_task_def env0_def truthy_def closes_def close_child_def finish_status_def
      upd_def sync_def notify_def Let_def STA_ACTIVE_def STA_DONE_def STA_DISMISSED_def)

lemma family_skip_eval:
  "closed_after STA_DONE (Concrete 10)
     (set_status 4 env0 ''g'' (Some STA_DONE) None False False
        (family_world STA_ACTIVE STA_DONE STA_ACTIVE True)) ''g''"
  by (simp add: eval_nat_numeral closed_after_def closed_as_def family_world_def family_task_def
      world_of_def init_task_def env0_def truthy_def closes_def close_child_def finish_status_def
      upd_def sync_def notify_def Let_def STA_ACTIVE_def STA_DONE_def STA_DISMISSED_def)

theorem set_status_close_cascade_witness:
  "(\<exists>S'. set_status 4 env0 ''g'' (Some STA_DONE) None False False
           (family_world STA_ACTIVE STA_ACTIVE STA_ACTIVE True) = Inr S'
       \<and> closed_as STA_DONE (Concrete 10) S' ''g''
       \<and> closed_as STA_DONE (Concrete 10) S' ''p''
       \<and> closed_as STA_DONE (Concrete 10) S' ''c'')
   \<and> (\<exists>S'. set_status 4 env0 ''g'' (Some STA_DONE) None False False
           (family_world STA_ACTIVE STA_DONE STA_ACTIVE True) = Inr S'
       \<and> closed_as STA_DONE (Concrete 10) S' ''g''
       \<and> closed_as STA_DONE NoDate S' ''p''
       \<and> closed_as STA_ACTIVE NoDate S' ''c'')"
proof
  let ?W = "family_world STA_ACTIVE STA_ACTIVE STA_ACTIVE True"
  have c: "tasks ?W ''c'' = Some (family_task STA_ACTIVE True [''p''] [])"
    and p: "tasks ?W ''p'' = Some (family_task STA_ACTIVE True [''g''] [''c''])"
    and g: "tasks ?W ''g'' = Some (family_task STA_ACTIVE True [] [''p''])"
    by (simp_all add: family_tasks)
  have gp: "active_below ?W ''g'' ''p''"
    by (rule active_below.child [OF g _ _ p]) (simp_all add: family_task_def)
  have gc: "active_below ?W ''g'' ''c''"
    by (rule active_below.below [OF gp p _ _ c]) (simp_all add: family_task_def)
  have d: "done_date env0 None = Concrete 10" by (simp add: done_date_def env0_def)
  from closed_after_Inr [OF family_close_eval] obtain S' where
    r: "set_status 4 env0 ''g'' (Some STA_DONE) None False False ?W = Inr S'" by blast
  have "STA_DONE = STA_DONE \<or> STA_DONE = STA_DISMISSED" by simp
  from set_status_close_cascade [OF r this] d
  have a: "closed_as STA_DONE (Concrete 10) S' ''g''"
    and b: "\<forall>c. active_below ?W ''g'' c \<longrightarrow> closed_as STA_DONE (Concrete 10) S' c"
    by simp_all
  from b gp gc have "closed_as STA_DONE (Concrete 10) S' ''p''"
    "closed_as STA_DONE (Concrete 10) S' ''c''" by simp_all
  with r a show "\<exists>S'. set_status 4 env0 ''g'' (Some STA_DONE) None False False ?W = Inr S'
       \<and> closed_as STA_DONE (Concrete 10) S' ''g''
       \<and> closed_as STA_DONE (Concrete 10) S' ''p''
       \<and> closed_as STA_DONE (Concrete 10) S' ''c''" by blast
next
  let ?W = "family_world STA_ACTIVE STA_DONE STA_ACTIVE True"
  let ?C = "family_task STA_ACTIVE True [''p''] []"
  let ?P = "family_task STA_DONE True [''g''] [''c'']"
  have c: "tasks ?W ''c'' = Some ?C" and p: "tasks ?W ''p'' = Some ?P"
    and g: "tasks ?W ''g'' = Some (family_task STA_ACTIVE True [] [''p''])"
    by (simp_all add: family_tasks)
  have np: "\<not> active_below ?W ''g'' ''p''"
  proof
    assume "active_below ?W ''g'' ''p''"
    from active_below_active [OF this] p show False
      by (simp add: status_of_def family_task_def STA_ACTIVE_def STA_DONE_def)
  qed
  have nc: "\<not> active_below ?W ''g'' ''c''"
  proof
    assume "active_below ?W ''g'' ''c''"
    then show False
    proof (cases rule: active_below.cases)
      case (child T C)
      with g show False by (simp add: family_task_def)
    next
      case (below m M C)
      from family_dom [OF below(2)] below(4) have "m = ''p''"
        by (elim disjE conjE) (simp_all add: family_task_def)
      with below(1) np show False by simp
    qed
  qed
  have d: "done_date env0 None = Concrete 10" by (simp add: done_date_def env0_def)
  from closed_after_Inr [OF family_skip_eval] obtain S' where
    r: "set_status 4 env0 ''g'' (Some STA_DONE) None False False ?W = Inr S'" by blast
  have "STA_DONE = STA_DONE \<or> STA_DONE = STA_DISMISSED" by simp
  from set_status_close_cascade [OF r this] d
  have a: "closed_as STA_DONE (Concrete 10) S' ''g''"
    and k: "\<forall>u U. u \<noteq> ''g'' \<and> \<not> active_below ?W ''g'' u \<and> tasks ?W u = Some U
       \<longrightarrow> (\<exists>U'. tasks S' u = Some U' \<and> status U' = status U \<and> closed_date U' = closed_date U)"
    by simp_all
  from k [rule_format, of "''p''" ?P] np p
  have kp: "closed_as STA_DONE NoDate S' ''p''"
    by (auto simp: closed_as_def family_task_def init_task_def)
  from k [rule_format, of "''c''" ?C] nc c
  have kc: "closed_as STA_ACTIVE NoDate S' ''c''"
    by (auto simp: closed_as_def family_task_def init_task_def)
  from r a kp kc show "\<exists>S'. set_status 4 env0 ''g'' (Some STA_DONE) None False False ?W = Inr S'
       \<and> closed_as STA_DONE (Concrete 10) S' ''g''
       \<and> closed_as STA_DONE NoDate S' ''p''
       \<and> closed_as STA_ACTIVE NoDate S' ''c''" by blast
qed

text \<open>
  The claim for every active descendant fails below a child that is not active: \<^verbatim>\<open>g\<close>,
  \<^verbatim>\<open>p\<close> and \<^verbatim>\<open>c\<close> are loaded, \<^verbatim>\<open>g\<close> and its grandchild \<^verbatim>\<open>c\<close> are active and \<^verbatim>\<open>p\<close> between them
  is done; closing \<^verbatim>\<open>g\<close> leaves \<^verbatim>\<open>c\<close> active.
\<close>

theorem set_status_close_skips_closed_child:
  "status_of (family_world STA_ACTIVE STA_DONE STA_ACTIVE True) ''g'' = Some STA_ACTIVE
   \<and> map_option children (tasks (family_world STA_ACTIVE STA_DONE STA_ACTIVE True) ''g'') = Some [''p'']
   \<and> map_option children (tasks (family_world STA_ACTIVE STA_DONE STA_ACTIVE True) ''p'') = Some [''c'']
   \<and> map_option loaded (tasks (family_world STA_ACTIVE STA_DONE STA_ACTIVE True) ''g'') = Some True
   \<and> map_option loaded (tasks (family_world STA_ACTIVE STA_DONE STA_ACTIVE True) ''c'') = Some True
   \<and> status_of (family_world STA_ACTIVE STA_DONE STA_ACTIVE True) ''c'' = Some STA_ACTIVE
   \<and> status_after (set_status 4 env0 ''g'' (Some STA_DONE) None False False
        (family_world STA_ACTIVE STA_DONE STA_ACTIVE True)) ''g'' = Some STA_DONE
   \<and> status_after (set_status 4 env0 ''g'' (Some STA_DONE) None False False
        (family_world STA_ACTIVE STA_DONE STA_ACTIVE True)) ''c'' = Some STA_ACTIVE"
  by (simp add: eval_nat_numeral status_after_def status_of_def family_world_def family_task_def
      world_of_def init_task_def env0_def truthy_def closes_def close_child_def finish_status_def
      upd_def sync_def notify_def Let_def STA_ACTIVE_def STA_DONE_def STA_DISMISSED_def)

end
